theory Spec2Isabelle
  imports
    Main
    "HOL-Library.Word"
    "HOL-Library.Char_ord"
    "HOL-Library.List_Lexorder"
    "HOL-Library.Multiset"
begin

unbundle bit_operations_syntax

section \<open>JavaScript values and same-value identity\<close>

text \<open>
  The values a component field can hold. A number is its IEEE-754 bit pattern (every
  number other than NaN has exactly one), a string is its list of code units, an object
  is a reference together with its own properties, a function is a reference.
\<close>

datatype jsval =
    JUndefined
  | JNull
  | JBool bool
  | JNumber "64 word"
  | JString string
  | JObject nat "(string \<times> jsval) list"
  | JFunction nat

text \<open>A bit pattern is NaN when its exponent is all ones and its fraction is not zero.\<close>

definition isNaN64 :: "64 word \<Rightarrow> bool" where
  "isNaN64 w \<longleftrightarrow>
     w AND 0x7FF0000000000000 = 0x7FF0000000000000 \<and> w AND 0x000FFFFFFFFFFFFF \<noteq> 0"

text \<open>
  \<^verbatim>\<open>Object.is(x, y)\<close>, the SameValue comparison: primitives by value (NaN is NaN,
  +0 is not -0, which have different bit patterns), objects and functions by reference;
  an object's properties are never looked at.
\<close>

fun Object_is :: "jsval \<Rightarrow> jsval \<Rightarrow> bool" where
  "Object_is JUndefined JUndefined = True"
| "Object_is JNull JNull = True"
| "Object_is (JBool a) (JBool b) = (a = b)"
| "Object_is (JNumber a) (JNumber b) = (if isNaN64 a then isNaN64 b else a = b)"
| "Object_is (JString a) (JString b) = (a = b)"
| "Object_is (JObject r _) (JObject s _) = (r = s)"
| "Object_is (JFunction r) (JFunction s) = (r = s)"
| "Object_is _ _ = False"

section \<open>ChangesManager.utils: change records\<close>

text \<open>Angular's \<^verbatim>\<open>SimpleChange\<close>, and \<^verbatim>\<open>TChange\<close>, which adds \<^verbatim>\<open>didChange\<close>.\<close>

record simple_change =
  previousValue :: jsval
  currentValue :: jsval
  firstChange :: bool

record tchange = simple_change +
  didChange :: bool

text \<open>
  A JavaScript \<^verbatim>\<open>Map\<close> is the list of its entries in insertion order, with
  distinct keys: \<^verbatim>\<open>set\<close> keeps the place of a key that exists and appends a new
  one. A \<^verbatim>\<open>Set\<close> is the list of its members in insertion order.
\<close>

definition Map_get :: "('k \<times> 'v) list \<Rightarrow> 'k \<Rightarrow> 'v option" where
  "Map_get m k = map_of m k"

fun Map_set :: "('k \<times> 'v) list \<Rightarrow> 'k \<Rightarrow> 'v \<Rightarrow> ('k \<times> 'v) list" where
  "Map_set [] k v = [(k, v)]"
| "Map_set ((k', v') # m) k v =
     (if k' = k then (k, v) # m else (k', v') # Map_set m k v)"

definition Set_add :: "'a list \<Rightarrow> 'a \<Rightarrow> 'a list" where
  "Set_add s x = (if x \<in> set s then s else s @ [x])"

definition Set_of :: "'a list \<Rightarrow> 'a list" where
  "Set_of xs = fold (\<lambda>x s. Set_add s x) xs []"

text \<open>
  A plain object used as a dictionary is the list of its own properties in the order
  \<^verbatim>\<open>Object.keys\<close> gives them (field names are ordinary identifiers, so this is
  the order in which they were written); reading and writing a property work as on a
  \<^verbatim>\<open>Map\<close>.
\<close>

definition Object_keys :: "(string \<times> 'a) list \<Rightarrow> string list" where
  "Object_keys obj = map fst obj"

abbreviation obj_get :: "(string \<times> 'a) list \<Rightarrow> string \<Rightarrow> 'a option" where
  "obj_get \<equiv> Map_get"

abbreviation obj_set :: "(string \<times> 'a) list \<Rightarrow> string \<Rightarrow> 'a \<Rightarrow> (string \<times> 'a) list" where
  "obj_set \<equiv> Map_set"

type_synonym simple_changes = "(string \<times> simple_change) list"
type_synonym changes_summary = "(string \<times> tchange) list"

text \<open>
  \<^verbatim>\<open>didPropertyChange(simpleChange)\<close>; the argument may be \<^verbatim>\<open>undefined\<close>
  (\<open>None\<close>), in which case the destructuring reads from \<^verbatim>\<open>{}\<close>.
\<close>

definition didPropertyChange :: "simple_change option \<Rightarrow> bool" where
  "didPropertyChange simpleChange =
     (let shouldIgnoreChange =
            (case simpleChange of None \<Rightarrow> True | Some c \<Rightarrow> firstChange c)
      in if shouldIgnoreChange then False
         else
           (let isValueTheSame =
                  (case simpleChange of
                     None \<Rightarrow> Object_is JUndefined JUndefined
                   | Some c \<Rightarrow> Object_is (currentValue c) (previousValue c))
            in if isValueTheSame then False else True))"

text \<open>
  \<^verbatim>\<open>getChangesSummary(simpleChanges)\<close>: a reduce over the keys that copies each
  record and adds \<^verbatim>\<open>didChange\<close> (\<open>with_didChange\<close> is the object literal). A key of \<^verbatim>\<open>Object.keys\<close> always has a value, so
  the \<open>None\<close> branch of the lookup is never taken.
\<close>

definition with_didChange :: "simple_change \<Rightarrow> tchange" where
  "with_didChange simpleChange =
     simple_change.extend simpleChange
       (tchange.fields (didPropertyChange (Some simpleChange)))"

definition getChangesSummary :: "simple_changes \<Rightarrow> changes_summary" where
  "getChangesSummary simpleChanges =
     fold (\<lambda>property accumulator.
             case obj_get simpleChanges property of
               None \<Rightarrow> accumulator
             | Some simpleChange \<Rightarrow>
                 obj_set accumulator property (with_didChange simpleChange))
          (Object_keys simpleChanges) []"

text \<open>A field is present in a batch with \<open>didChange = true\<close>.\<close>

definition field_changed :: "changes_summary \<Rightarrow> string \<Rightarrow> bool" where
  "field_changed changesSummary property =
     (case obj_get changesSummary property of
        None \<Rightarrow> False
      | Some change \<Rightarrow> didChange change)"

section \<open>ChangesManager.utils: debounce\<close>

text \<open>
  \<^verbatim>\<open>debounce(callback, wait)\<close> returns a function that cancels the pending timer,
  starts a new one holding the arguments of this call, and returns nothing
  (\<^verbatim>\<open>undefined\<close>). The state of the closure is the pending timer: the arguments
  the callback will get when it fires. When the timer fires, the callback runs on those
  arguments; what it returns is dropped.
\<close>

definition debounce_call :: "'a \<Rightarrow> 'a option \<Rightarrow> 'a option" where
  "debounce_call args timer = Some args"

section \<open>Callback declarations and the registry\<close>

text \<open>
  The value found where a callback or a validator is expected. HOL equality on this type
  is the key comparison of \<^verbatim>\<open>Map\<close> and \<^verbatim>\<open>Set\<close>: \<open>Function f\<close> is the function
  with reference \<open>f\<close>; \<open>NotCallable i t\<close> is any other value, identified by \<open>i\<close>,
  with truthiness \<open>t\<close> and no \<^verbatim>\<open>call\<close> member.
\<close>

datatype fnval = Undefined | Null | Function nat | NotCallable nat bool

fun truthy :: "fnval \<Rightarrow> bool" where
  "truthy Undefined = False"
| "truthy Null = False"
| "truthy (Function _) = True"
| "truthy (NotCallable _ t) = t"

text \<open>\<^verbatim>\<open>v ?? null\<close>.\<close>

fun or_null :: "fnval \<Rightarrow> fnval" where
  "or_null Undefined = Null"
| "or_null v = v"

text \<open>
  What a configuration gives for one group: a function, an object (of which only the
  properties \<^verbatim>\<open>callback\<close> and \<^verbatim>\<open>validator\<close> are read; a missing one reads as
  \<open>Undefined\<close>), \<^verbatim>\<open>null\<close>, \<^verbatim>\<open>undefined\<close>, or a primitive (number, string,
  boolean).
\<close>

datatype decl =
    DeclFunction nat
  | DeclObject fnval fnval
  | DeclNull
  | DeclUndefined
  | DeclPrimitive

datatype callbacks_parameter =
    NoCallbacks
  | CallbacksArray "(string list \<times> decl) list"
  | CallbacksObject "(string \<times> decl) list"

record callback_config =
  callback :: fnval
  validator :: fnval

record registry =
  propertiesByGroup :: "(string \<times> string list) list"
  callbacksByGroup :: "(string \<times> callback_config) list"

datatype error = TypeError | Thrown nat

text \<open>
  \<^verbatim>\<open>getCallbacksConfigFromParameter\<close>: a function becomes
  \<^verbatim>\<open>{callback, validator: null}\<close>, anything else is passed on as it is.
\<close>

fun sanitize :: "decl \<Rightarrow> decl" where
  "sanitize (DeclFunction f) = DeclObject (Function f) Null"
| "sanitize d = d"

definition getCallbacksConfigFromParameter ::
  "(string list \<times> decl) list \<Rightarrow> (string list \<times> decl) list" where
  "getCallbacksConfigFromParameter callbacksConfig =
     map (\<lambda>(keys, callbackConfig). (keys, sanitize callbackConfig)) callbacksConfig"

text \<open>
  \<^verbatim>\<open>getCallbacksConfigFromParameterObject\<close>: a reduce over the keys of the object;
  each key becomes a group of its own.
\<close>

definition getCallbacksConfigFromParameterObject ::
  "(string \<times> decl) list \<Rightarrow> (string list \<times> decl) list" where
  "getCallbacksConfigFromParameterObject callbacksConfig =
     fold (\<lambda>key accumulator.
             case obj_get callbacksConfig key of
               None \<Rightarrow> accumulator
             | Some config \<Rightarrow> accumulator @ [([key], sanitize config)])
          (Object_keys callbacksConfig) []"

text \<open>\<^verbatim>\<open>xs.join(sep)\<close> and \<^verbatim>\<open>s.split('|')\<close> on strings.\<close>

fun Array_join :: "string \<Rightarrow> string list \<Rightarrow> string" where
  "Array_join sep [] = []"
| "Array_join sep [x] = x"
| "Array_join sep (x # y # ys) = x @ sep @ Array_join sep (y # ys)"

fun String_split :: "char \<Rightarrow> string \<Rightarrow> string list" where
  "String_split c [] = [[]]"
| "String_split c (x # xs) =
     (if x = c then [] # String_split c xs
      else (case String_split c xs of
              [] \<Rightarrow> [[x]]
            | w # ws \<Rightarrow> (x # w) # ws))"

text \<open>
  The group id: \<^verbatim>\<open>props.sort().join('|')\<close>. The default sort compares strings by
  code units, which is the lexicographic order on \<open>string\<close>. The sort is in place, so
  the set built next is built from the sorted list.
\<close>

definition groupId :: "string list \<Rightarrow> string" where
  "groupId props = Array_join ''|'' (sort props)"

text \<open>
  The parameter pattern \<^verbatim>\<open>[props, { callback, validator }]\<close>: destructuring
  \<^verbatim>\<open>null\<close> or \<^verbatim>\<open>undefined\<close> raises a TypeError; a property that a value does
  not have reads as \<open>Undefined\<close>.
\<close>

fun destructure :: "decl \<Rightarrow> error + callback_config" where
  "destructure (DeclObject c v) = Inr \<lparr>callback = c, validator = v\<rparr>"
| "destructure (DeclFunction f) = Inr \<lparr>callback = Undefined, validator = Undefined\<rparr>"
| "destructure DeclPrimitive = Inr \<lparr>callback = Undefined, validator = Undefined\<rparr>"
| "destructure DeclNull = Inl TypeError"
| "destructure DeclUndefined = Inl TypeError"

text \<open>The body of the \<^verbatim>\<open>forEach\<close> of \<^verbatim>\<open>computeCallbackConfigDerivatives\<close>.\<close>

definition register_group :: "registry \<Rightarrow> string list \<times> decl \<Rightarrow> error + registry" where
  "register_group reg entry =
     (case entry of (props, d) \<Rightarrow>
        (case destructure d of
           Inl e \<Rightarrow> Inl e
         | Inr cfg \<Rightarrow>
             (let gid = groupId props;
                  groupAttributesSet = Set_of (sort props)
              in Inr \<lparr>propertiesByGroup =
                         Map_set (propertiesByGroup reg) gid groupAttributesSet,
                       callbacksByGroup =
                         Map_set (callbacksByGroup reg) gid
                           \<lparr>callback = callback cfg,
                            validator = or_null (validator cfg)\<rparr>\<rparr>)))"

fun register_groups :: "registry \<Rightarrow> (string list \<times> decl) list \<Rightarrow> error + registry" where
  "register_groups reg [] = Inr reg"
| "register_groups reg (entry # rest) =
     (case register_group reg entry of
        Inl e \<Rightarrow> Inl e
      | Inr reg' \<Rightarrow> register_groups reg' rest)"

definition empty_registry :: registry where
  "empty_registry = \<lparr>propertiesByGroup = [], callbacksByGroup = []\<rparr>"

definition computeCallbackConfigDerivatives ::
  "(string list \<times> decl) list \<Rightarrow> error + registry" where
  "computeCallbackConfigDerivatives callbacksConfig =
     register_groups empty_registry callbacksConfig"

text \<open>
  \<^verbatim>\<open>setCallbacksConfig\<close>, called once by the constructor on the two empty maps: the
  registry the manager holds afterwards.
\<close>

fun setCallbacksConfig :: "callbacks_parameter \<Rightarrow> error + registry" where
  "setCallbacksConfig NoCallbacks = Inr empty_registry"
| "setCallbacksConfig (CallbacksArray callbacksConfig) =
     computeCallbackConfigDerivatives (getCallbacksConfigFromParameter callbacksConfig)"
| "setCallbacksConfig (CallbacksObject callbacksConfig) =
     computeCallbackConfigDerivatives (getCallbacksConfigFromParameterObject callbacksConfig)"

section \<open>The manager\<close>

text \<open>
  The constructor's \<^verbatim>\<open>debounceDelay\<close>: missing, \<^verbatim>\<open>null\<close>, NaN, or a number of
  milliseconds. \<^verbatim>\<open>isNaN\<close> is true of NaN only (a missing delay defaults to 0, and
  \<^verbatim>\<open>null\<close> converts to 0).
\<close>

datatype delay = DelayUndefined | DelayNull | DelayNaN | DelayNumber int

fun isNaN :: "delay \<Rightarrow> bool" where
  "isNaN DelayUndefined = False"
| "isNaN DelayNull = False"
| "isNaN DelayNaN = True"
| "isNaN (DelayNumber _) = False"

text \<open>
  A field of the host component: a data property, or an accessor. Reading an accessor
  runs host code, so successive reads need not agree and a read may throw:
  \<open>Accessor g\<close> gives \<open>g k\<close> at the \<open>k\<close>-th read of the field within one run of
  \<^verbatim>\<open>executeCallbacks\<close>.
\<close>

datatype read = Gives jsval | Raises nat

datatype field = Data jsval | Accessor "nat \<Rightarrow> read"

record options =
  opt_component :: "(string \<times> field) list"
  opt_debounceDelay :: delay
  opt_callbacks :: callbacks_parameter
  opt_strict :: "bool option"
  opt_onChanges :: fnval

record manager =
  component :: "(string \<times> field) list"
  strict :: bool
  onChanges :: fnval
  debounced :: bool
  callbacks :: registry

definition constructor :: "options \<Rightarrow> error + manager" where
  "constructor opts =
     (let shouldDebounceDetection = \<not> isNaN (opt_debounceDelay opts)
      in case setCallbacksConfig (opt_callbacks opts) of
           Inl e \<Rightarrow> Inl e
         | Inr reg \<Rightarrow>
             Inr \<lparr>component = opt_component opts,
                  strict = (case opt_strict opts of None \<Rightarrow> True | Some b \<Rightarrow> b),
                  onChanges = opt_onChanges opts,
                  debounced = shouldDebounceDetection,
                  callbacks = reg\<rparr>)"

section \<open>Dispatch\<close>

text \<open>
  Handlers, validators and the \<^verbatim>\<open>onChanges\<close> hook are code of the host. The model
  fixes, for each function reference and each batch, what a call does: it returns (with
  the truthiness of the value returned) or it throws. Every call, and every call of
  \<^verbatim>\<open>changeDetectorRef.detectChanges()\<close>, is recorded as an event, in order. A
  function of the manager returns the events of its run and either the exception that
  ended it or its value.
\<close>

datatype outcome = Return bool | Throw nat

type_synonym env = "nat \<Rightarrow> changes_summary \<Rightarrow> outcome"

datatype event =
    ValidatorCall nat changes_summary
  | HandlerCall nat changes_summary
  | OnChangesCall nat changes_summary
  | DetectChanges

text \<open>
  Calling the value in a callback position: \<^verbatim>\<open>validator(changesSummary)\<close>,
  \<^verbatim>\<open>callback.call(this.component, changesSummary)\<close>. A value that is not a
  function raises a TypeError and calls nothing.
\<close>

fun call_value ::
  "env \<Rightarrow> (nat \<Rightarrow> changes_summary \<Rightarrow> event) \<Rightarrow> fnval \<Rightarrow> changes_summary
     \<Rightarrow> event list \<times> (error + bool)" where
  "call_value env ev (Function f) changesSummary =
     ([ev f changesSummary],
      (case env f changesSummary of Return b \<Rightarrow> Inr b | Throw x \<Rightarrow> Inl (Thrown x)))"
| "call_value env ev v changesSummary = ([], Inl TypeError)"

text \<open>\<^verbatim>\<open>Array.from(validators).every((validator) => validator(changesSummary))\<close>.\<close>

fun every_validator ::
  "env \<Rightarrow> fnval list \<Rightarrow> changes_summary \<Rightarrow> event list \<times> (error + bool)" where
  "every_validator env [] changesSummary = ([], Inr True)"
| "every_validator env (v # vs) changesSummary =
     (case call_value env ValidatorCall v changesSummary of
        (tr, Inl e) \<Rightarrow> (tr, Inl e)
      | (tr, Inr False) \<Rightarrow> (tr, Inr False)
      | (tr, Inr True) \<Rightarrow>
          (case every_validator env vs changesSummary of (tr', r) \<Rightarrow> (tr @ tr', r)))"

text \<open>
  The predicate of \<^verbatim>\<open>properties.some\<close> in \<^verbatim>\<open>getCallbacksWhichShouldBeExecuted\<close>.
  Both lookups succeed in the source: the property is a key of the batch, and the two
  maps of a registry have the same keys.
\<close>

definition shouldIncludeGroup :: "registry \<Rightarrow> changes_summary \<Rightarrow> string \<Rightarrow> bool" where
  "shouldIncludeGroup reg changesSummary gid =
     list_ex (\<lambda>property.
        case Map_get (propertiesByGroup reg) gid of
          None \<Rightarrow> False
        | Some groupAttributes \<Rightarrow>
            (case obj_get changesSummary property of
               None \<Rightarrow> False
             | Some change \<Rightarrow>
                 (let attributeHasChanges = didChange change;
                      attributeBelongsToGroup = (property \<in> set groupAttributes)
                  in attributeHasChanges \<and> attributeBelongsToGroup)))
       (Object_keys changesSummary)"

definition getCallbacksWhichShouldBeExecuted ::
  "registry \<Rightarrow> changes_summary \<Rightarrow> (fnval \<times> fnval list) list" where
  "getCallbacksWhichShouldBeExecuted reg changesSummary =
     fold (\<lambda>(gid, cfg) accumulator.
             if shouldIncludeGroup reg changesSummary gid then
               (let validators =
                      (case Map_get accumulator (callback cfg) of
                         None \<Rightarrow> []
                       | Some s \<Rightarrow> s);
                    validators' =
                      (if truthy (validator cfg) then Set_add validators (validator cfg)
                       else validators)
                in Map_set accumulator (callback cfg) validators')
             else accumulator)
          (callbacksByGroup reg) []"

text \<open>
  The \<^verbatim>\<open>forEach\<close> over the entries, shared by \<^verbatim>\<open>executeChangesCallbacks\<close>
  (\<open>avoidValidations\<close> is false there) and \<^verbatim>\<open>executeCallbacks\<close>: with
  \<open>avoidValidations\<close> the validators are not evaluated.
\<close>

fun run_entries ::
  "env \<Rightarrow> bool \<Rightarrow> (fnval \<times> fnval list) list \<Rightarrow> changes_summary
     \<Rightarrow> event list \<times> (error + unit)" where
  "run_entries env avoidValidations [] changesSummary = ([], Inr ())"
| "run_entries env avoidValidations ((cb, validators) # rest) changesSummary =
     (case (if avoidValidations then ([], Inr True)
            else every_validator env validators changesSummary) of
        (tr, Inl e) \<Rightarrow> (tr, Inl e)
      | (tr, Inr False) \<Rightarrow>
          (case run_entries env avoidValidations rest changesSummary of
             (tr', r) \<Rightarrow> (tr @ tr', r))
      | (tr, Inr True) \<Rightarrow>
          (case call_value env HandlerCall cb changesSummary of
             (tr1, Inl e) \<Rightarrow> (tr @ tr1, Inl e)
           | (tr1, Inr _) \<Rightarrow>
               (case run_entries env avoidValidations rest changesSummary of
                  (tr', r) \<Rightarrow> (tr @ tr1 @ tr', r))))"

definition executeChangesCallbacks ::
  "env \<Rightarrow> manager \<Rightarrow> changes_summary \<Rightarrow> event list \<times> (error + unit)" where
  "executeChangesCallbacks env m changesSummary =
     (let cbs = getCallbacksWhichShouldBeExecuted (callbacks m) changesSummary
      in case run_entries env False cbs changesSummary of
           (tr, Inl e) \<Rightarrow> (tr, Inl e)
         | (tr, Inr _) \<Rightarrow> (tr @ [DetectChanges], Inr ()))"

text \<open>\<^verbatim>\<open>this.onChanges?.(changesSummary)\<close>.\<close>

fun optional_call ::
  "env \<Rightarrow> fnval \<Rightarrow> changes_summary \<Rightarrow> event list \<times> (error + unit)" where
  "optional_call env Undefined changesSummary = ([], Inr ())"
| "optional_call env Null changesSummary = ([], Inr ())"
| "optional_call env v changesSummary =
     (case call_value env OnChangesCall v changesSummary of
        (tr, Inl e) \<Rightarrow> (tr, Inl e)
      | (tr, Inr _) \<Rightarrow> (tr, Inr ()))"

text \<open>\<^verbatim>\<open>_manageChanges\<close>, the processing of one cycle.\<close>

definition manageChanges_inner ::
  "env \<Rightarrow> manager \<Rightarrow> simple_changes \<Rightarrow> event list \<times> (error + changes_summary)" where
  "manageChanges_inner env m simpleChanges =
     (let changesSummary = getChangesSummary simpleChanges;
          shouldProcessChanges =
            list_ex (\<lambda>key. case obj_get changesSummary key of
                              None \<Rightarrow> False
                            | Some simpleChange \<Rightarrow> didChange simpleChange)
              (Object_keys simpleChanges)
      in if strict m \<and> \<not> shouldProcessChanges then ([], Inr changesSummary)
         else
           (case executeChangesCallbacks env m changesSummary of
              (tr, Inl e) \<Rightarrow> (tr, Inl e)
            | (tr, Inr _) \<Rightarrow>
                (case optional_call env (onChanges m) changesSummary of
                   (tr', Inl e) \<Rightarrow> (tr @ tr', Inl e)
                 | (tr', Inr _) \<Rightarrow> (tr @ tr', Inr changesSummary))))"

text \<open>
  The public \<^verbatim>\<open>manageChanges\<close>: \<^verbatim>\<open>_manageChanges\<close> itself, or
  \<^verbatim>\<open>debounce(_manageChanges, debounceDelay)\<close>. The second component of the result is
  the pending timer of the debounced function; the value returned is \<open>None\<close> for
  \<^verbatim>\<open>undefined\<close>.
\<close>

definition manageChanges ::
  "env \<Rightarrow> manager \<Rightarrow> simple_changes \<Rightarrow> simple_changes option
     \<Rightarrow> (event list \<times> (error + changes_summary option)) \<times> simple_changes option" where
  "manageChanges env m simpleChanges timer =
     (if debounced m then (([], Inr None), debounce_call simpleChanges timer)
      else
        (case manageChanges_inner env m simpleChanges of
           (tr, Inl e) \<Rightarrow> ((tr, Inl e), timer)
         | (tr, Inr changesSummary) \<Rightarrow> ((tr, Inr (Some changesSummary)), timer)))"

text \<open>
  The pending timer of the debounced \<^verbatim>\<open>manageChanges\<close> fires: the cycle is processed
  in the timer's callback, which is where an exception goes.
\<close>

definition manageChanges_timer_fires ::
  "env \<Rightarrow> manager \<Rightarrow> simple_changes option
     \<Rightarrow> (event list \<times> (error + unit)) \<times> simple_changes option" where
  "manageChanges_timer_fires env m timer =
     (case timer of
        None \<Rightarrow> (([], Inr ()), None)
      | Some simpleChanges \<Rightarrow>
          (case manageChanges_inner env m simpleChanges of
             (tr, Inl e) \<Rightarrow> ((tr, Inl e), None)
           | (tr, Inr _) \<Rightarrow> ((tr, Inr ()), None)))"

text \<open>
  \<^verbatim>\<open>executeCallbacks({avoidValidations})\<close>: the reduce that collects the callbacks
  and the attributes, the synthetic changes read from the component, and the
  \<^verbatim>\<open>forEach\<close>.
\<close>

definition collect_callbacks ::
  "(string \<times> callback_config) list \<Rightarrow> (fnval \<times> fnval list) list \<times> string list" where
  "collect_callbacks callbacksGroups =
     fold (\<lambda>(gid, cfg) (cbs, attributes).
             (let attributes' =
                    fold (\<lambda>attribute s. Set_add s attribute)
                      (String_split (CHR ''|'') gid) attributes;
                  validations =
                    (case Map_get cbs (callback cfg) of None \<Rightarrow> [] | Some s \<Rightarrow> s)
              in (Map_set cbs (callback cfg) (Set_add validations (validator cfg)),
                  attributes')))
          callbacksGroups ([], [])"

text \<open>
  \<^verbatim>\<open>this.component[attribute]\<close>, the \<open>k\<close>-th read of the field in this run. A field
  the component does not have reads as \<open>JUndefined\<close>.
\<close>

definition component_get :: "(string \<times> field) list \<Rightarrow> string \<Rightarrow> nat \<Rightarrow> error + jsval" where
  "component_get c attribute k =
     (case obj_get c attribute of
        None \<Rightarrow> Inr JUndefined
      | Some (Data v) \<Rightarrow> Inr v
      | Some (Accessor g) \<Rightarrow> (case g k of Gives v \<Rightarrow> Inr v | Raises x \<Rightarrow> Inl (Thrown x)))"

text \<open>
  The keys of a plain object are listed with the array indices first, in ascending
  order, and the other names after them in the order in which they were created. An
  array index is the decimal numeral, without a leading zero, of a number below
  \<open>2\<^sup>3\<^sup>2 - 1\<close>.
\<close>

definition digit_value :: "char \<Rightarrow> nat option" where
  "digit_value c =
     map_of [(CHR ''0'', 0), (CHR ''1'', 1), (CHR ''2'', 2), (CHR ''3'', 3), (CHR ''4'', 4),
             (CHR ''5'', 5), (CHR ''6'', 6), (CHR ''7'', 7), (CHR ''8'', 8), (CHR ''9'', 9)] c"

fun decimal :: "string \<Rightarrow> nat \<Rightarrow> nat option" where
  "decimal [] n = Some n"
| "decimal (c # cs) n =
     (case digit_value c of None \<Rightarrow> None | Some d \<Rightarrow> decimal cs (10 * n + d))"

definition array_index :: "string \<Rightarrow> nat option" where
  "array_index s =
     (case s of
        [] \<Rightarrow> None
      | c # cs \<Rightarrow>
          if c = CHR ''0'' \<and> cs \<noteq> [] then None
          else (case decimal s 0 of
                  None \<Rightarrow> None
                | Some n \<Rightarrow> if n < 4294967295 then Some n else None))"

definition key_before :: "string \<Rightarrow> string \<Rightarrow> bool" where
  "key_before k k' =
     (case array_index k of
        None \<Rightarrow> False
      | Some i \<Rightarrow> (case array_index k' of None \<Rightarrow> True | Some j \<Rightarrow> i < j))"

fun insert_key :: "(string \<times> 'a) list \<Rightarrow> string \<Rightarrow> 'a \<Rightarrow> (string \<times> 'a) list" where
  "insert_key [] k v = [(k, v)]"
| "insert_key ((k', v') # obj) k v =
     (if key_before k k' then (k, v) # (k', v') # obj else (k', v') # insert_key obj k v)"

text \<open>
  The object literal \<^verbatim>\<open>{...accumulator, [attribute]: value}\<close>: a property that
  exists keeps its place, a new one takes the place its key has in the listing.
\<close>

definition Object_define :: "(string \<times> 'a) list \<Rightarrow> string \<Rightarrow> 'a \<Rightarrow> (string \<times> 'a) list" where
  "Object_define obj k v =
     (if k \<in> set (Object_keys obj) then obj_set obj k v else insert_key obj k v)"

text \<open>
  The reduce over the attributes. The literal reads the field twice, first for
  \<^verbatim>\<open>currentValue\<close> and then for \<^verbatim>\<open>previousValue\<close>; a read that throws ends
  \<^verbatim>\<open>executeCallbacks\<close>. (The member \<^verbatim>\<open>isFirstChange\<close> of the literal is not a
  member of \<^verbatim>\<open>TChange\<close> and is left out.)
\<close>

fun synthetic_changes ::
  "(string \<times> field) list \<Rightarrow> string list \<Rightarrow> simple_changes \<Rightarrow> error + simple_changes" where
  "synthetic_changes c [] accumulator = Inr accumulator"
| "synthetic_changes c (attribute # attributes) accumulator =
     (case component_get c attribute 0 of
        Inl e \<Rightarrow> Inl e
      | Inr current \<Rightarrow>
          (case component_get c attribute 1 of
             Inl e \<Rightarrow> Inl e
           | Inr previous \<Rightarrow>
               synthetic_changes c attributes
                 (Object_define accumulator attribute
                    \<lparr>previousValue = previous, currentValue = current,
                     firstChange = False\<rparr>)))"

definition executeCallbacks ::
  "env \<Rightarrow> manager \<Rightarrow> bool \<Rightarrow> event list \<times> (error + unit)" where
  "executeCallbacks env m avoidValidations =
     (case collect_callbacks (callbacksByGroup (callbacks m)) of
        (cbs, attributes) \<Rightarrow>
          (case synthetic_changes (component m) attributes [] of
             Inl e \<Rightarrow> ([], Inl e)
           | Inr simpleChanges \<Rightarrow>
               (let changesSummary = getChangesSummary simpleChanges
                in run_entries env avoidValidations cbs changesSummary)))"

section \<open>Notions the properties are stated with\<close>

text \<open>A validator returns true on a batch.\<close>

fun passes :: "env \<Rightarrow> changes_summary \<Rightarrow> fnval \<Rightarrow> bool" where
  "passes env changesSummary (Function f) = (env f changesSummary = Return True)"
| "passes env changesSummary v = False"

text \<open>
  The validators collected for a handler in a cycle: those of every triggered group
  registered with that handler.
\<close>

definition collected_validators :: "registry \<Rightarrow> changes_summary \<Rightarrow> fnval \<Rightarrow> fnval list" where
  "collected_validators reg changesSummary cb =
     map (\<lambda>(gid, cfg). validator cfg)
       (filter (\<lambda>(gid, cfg). shouldIncludeGroup reg changesSummary gid \<and>
                              callback cfg = cb \<and> truthy (validator cfg))
          (callbacksByGroup reg))"

text \<open>A handler is reachable through some triggered group.\<close>

definition handler_triggered :: "registry \<Rightarrow> changes_summary \<Rightarrow> fnval \<Rightarrow> bool" where
  "handler_triggered reg changesSummary cb =
     list_ex (\<lambda>(gid, cfg). shouldIncludeGroup reg changesSummary gid \<and> callback cfg = cb)
       (callbacksByGroup reg)"

text \<open>The batches a handler was invoked with, in order.\<close>

fun handler_calls_of :: "nat \<Rightarrow> event list \<Rightarrow> changes_summary list" where
  "handler_calls_of h [] = []"
| "handler_calls_of h (HandlerCall f changesSummary # tr) =
     (if f = h then changesSummary # handler_calls_of h tr else handler_calls_of h tr)"
| "handler_calls_of h (e # tr) = handler_calls_of h tr"

fun is_handler_call :: "event \<Rightarrow> bool" where
  "is_handler_call (HandlerCall f changesSummary) = True"
| "is_handler_call e = False"

fun is_function :: "fnval \<Rightarrow> bool" where
  "is_function (Function f) = True"
| "is_function v = False"

text \<open>
  A registry as the declared types give it: every callback is a function, every
  validator a function or \<^verbatim>\<open>null\<close>.
\<close>

definition registry_well_typed :: "registry \<Rightarrow> bool" where
  "registry_well_typed reg =
     list_all (\<lambda>(gid, cfg). is_function (callback cfg) \<and>
                            (validator cfg = Null \<or> is_function (validator cfg)))
       (callbacksByGroup reg)"

text \<open>
  A declaration of the shapes the configuration type allows: a function, or an object
  whose callback is a function and whose validator is a function or missing.
\<close>

fun well_formed_decl :: "decl \<Rightarrow> bool" where
  "well_formed_decl (DeclFunction f) = True"
| "well_formed_decl (DeclObject (Function f) v) = (v = Undefined \<or> v = Null \<or> is_function v)"
| "well_formed_decl d = False"

text \<open>No call on the batch throws.\<close>

definition never_throws :: "env \<Rightarrow> changes_summary \<Rightarrow> bool" where
  "never_throws env changesSummary = (\<forall>f. \<exists>b. env f changesSummary = Return b)"

text \<open>
  The step of the reduce in \<^verbatim>\<open>getCallbacksWhichShouldBeExecuted\<close>, with the test
  for a triggered group as a parameter.
\<close>

definition agg_step ::
  "(string \<Rightarrow> bool) \<Rightarrow> string \<times> callback_config \<Rightarrow> (fnval \<times> fnval list) list
     \<Rightarrow> (fnval \<times> fnval list) list" where
  "agg_step T = (\<lambda>(gid, cfg) accumulator.
             if T gid then
               (let validators =
                      (case Map_get accumulator (callback cfg) of
                         None \<Rightarrow> []
                       | Some s \<Rightarrow> s);
                    validators' =
                      (if truthy (validator cfg) then Set_add validators (validator cfg)
                       else validators)
                in Map_set accumulator (callback cfg) validators')
             else accumulator)"

text \<open>
  The calls of one handler that a run over the entries makes when nothing throws: one
  for an entry of this handler whose validators all pass (or are skipped).
\<close>

definition expected_calls ::
  "env \<Rightarrow> bool \<Rightarrow> nat \<Rightarrow> changes_summary \<Rightarrow> (fnval \<times> fnval list) list \<Rightarrow> changes_summary list" where
  "expected_calls env av h cs entries =
     concat (map (\<lambda>(cb, vs). if cb = Function h \<and> (av \<or> list_all (passes env cs) vs)
                               then [cs] else []) entries)"

section \<open>Scenario data\<close>

text \<open>
  A reported change that is not a first change; an environment in which every function
  returns true; one in which function 5 returns false; one in which function 9 throws;
  the options of a manager constructed with callbacks only.
\<close>

definition change_from :: "jsval \<Rightarrow> jsval \<Rightarrow> simple_change" where
  "change_from p c = \<lparr>previousValue = p, currentValue = c, firstChange = False\<rparr>"

definition all_pass :: env where
  "all_pass f changesSummary = Return True"

definition reject_5 :: env where
  "reject_5 f changesSummary = (if f = 5 then Return False else Return True)"

definition throw_9 :: env where
  "throw_9 f changesSummary = (if f = 9 then Throw 1 else Return True)"

definition default_options :: "callbacks_parameter \<Rightarrow> options" where
  "default_options cbs =
     \<lparr>opt_component = [], opt_debounceDelay = DelayUndefined, opt_callbacks = cbs,
      opt_strict = None, opt_onChanges = Undefined\<rparr>"

text \<open>The manager constructed with no callbacks and no options.\<close>

definition default_manager :: manager where
  "default_manager =
     \<lparr>component = [], strict = True, onChanges = Undefined, debounced = True,
      callbacks = empty_registry\<rparr>"

lemmas model_defs =
  getChangesSummary_def Object_keys_def Map_get_def with_didChange_def didPropertyChange_def
  field_changed_def simple_change.extend_def tchange.fields_def shouldIncludeGroup_def
  getCallbacksWhichShouldBeExecuted_def executeChangesCallbacks_def manageChanges_inner_def
  manageChanges_def manageChanges_timer_fires_def debounce_call_def Set_add_def Set_of_def
  collected_validators_def handler_triggered_def registry_well_typed_def
  constructor_def computeCallbackConfigDerivatives_def register_group_def groupId_def
  getCallbacksConfigFromParameter_def getCallbacksConfigFromParameterObject_def
  empty_registry_def change_from_def all_pass_def reject_5_def default_options_def Let_def

lemmas manual_run_defs =
  collect_callbacks_def component_get_def executeCallbacks_def Object_define_def
  key_before_def array_index_def digit_value_def

section \<open>Maps and sets\<close>

lemma Map_get_Map_set: "Map_get (Map_set m k v) k' = (if k' = k then Some v else Map_get m k')"
  by (induction m) (auto simp: Map_get_def)

lemma keys_Map_set: "fst ` set (Map_set m k v) = insert k (fst ` set m)"
  by (induction m) force+

lemma distinct_Map_set: "distinct (map fst m) \<Longrightarrow> distinct (map fst (Map_set m k v))"
  by (induction m) (auto simp: keys_Map_set)

lemma map_fst_Map_set:
  "map fst m = map fst m' \<Longrightarrow> map fst (Map_set m k v) = map fst (Map_set m' k v')"
proof (induction m arbitrary: m')
  case Nil
  then show ?case by simp
next
  case (Cons a m)
  then obtain b n where "m' = b # n" by (cases m') auto
  with Cons show ?case by (cases a; cases b) auto
qed

lemma Map_get_Some_mem: "Map_get m k = Some v \<Longrightarrow> (k, v) \<in> set m"
  by (simp add: Map_get_def map_of_SomeD)

lemma Map_get_distinct: "distinct (map fst m) \<Longrightarrow> (k, v) \<in> set m \<Longrightarrow> Map_get m k = Some v"
  by (simp add: Map_get_def)

section \<open>Group ids\<close>

lemma groupId_mset: "mset xs = mset ys \<Longrightarrow> groupId xs = groupId ys"
proof -
  assume "mset xs = mset ys"
  then have "sort xs = sort ys"
    by (metis properties_for_sort mset_sort sorted_sort)
  then show ?thesis by (simp add: groupId_def)
qed


section \<open>Building the registry\<close>

lemma destructure_ok: "(\<exists>cfg. destructure d = Inr cfg) \<longleftrightarrow> d \<noteq> DeclNull \<and> d \<noteq> DeclUndefined"
  by (cases d) auto

lemma register_groups_Inr:
  "(\<exists>reg'. register_groups reg cfg = Inr reg') \<longleftrightarrow>
     list_all (\<lambda>(props, d). d \<noteq> DeclNull \<and> d \<noteq> DeclUndefined) cfg"
proof (induction cfg arbitrary: reg)
  case Nil
  then show ?case by simp
next
  case (Cons e cfg)
  obtain props d where e: "e = (props, d)" by (cases e)
  show ?case
  proof (cases "destructure d")
    case (Inl err)
    then have "d = DeclNull \<or> d = DeclUndefined" using destructure_ok[of d] by auto
    with Inl e show ?thesis by (auto simp: register_group_def)
  next
    case (Inr c)
    then have "d \<noteq> DeclNull \<and> d \<noteq> DeclUndefined" using destructure_ok[of d] by auto
    with Inr e Cons.IH show ?thesis by (simp add: register_group_def Let_def)
  qed
qed


lemma register_groups_append:
  "register_groups reg (xs @ ys) =
     (case register_groups reg xs of Inl e \<Rightarrow> Inl e | Inr r \<Rightarrow> register_groups r ys)"
  by (induction xs arbitrary: reg) (auto split: sum.splits)

lemma register_groups_error: "register_groups reg cfg = Inl e \<Longrightarrow> e = TypeError"
proof (induction cfg arbitrary: reg)
  case Nil
  then show ?case by simp
next
  case (Cons x cfg)
  obtain props d where x: "x = (props, d)" by (cases x)
  from Cons x show ?case
    by (cases d) (auto simp: register_group_def Let_def split: sum.splits)
qed

lemma register_group_get:
  assumes "register_group reg (props, d) = Inr reg'"
  shows "Map_get (callbacksByGroup reg') k =
           (if k = groupId props
            then map_option (\<lambda>cfg. \<lparr>callback = callback cfg, validator = or_null (validator cfg)\<rparr>)
                   (case destructure d of Inl e \<Rightarrow> None | Inr cfg \<Rightarrow> Some cfg)
            else Map_get (callbacksByGroup reg) k)"
    and "Map_get (propertiesByGroup reg') k =
           (if k = groupId props then Some (Set_of (sort props))
            else Map_get (propertiesByGroup reg) k)"
    and "distinct (map fst (callbacksByGroup reg)) \<Longrightarrow> distinct (map fst (callbacksByGroup reg'))"
    and "distinct (map fst (propertiesByGroup reg)) \<Longrightarrow> distinct (map fst (propertiesByGroup reg'))"
    and "map fst (propertiesByGroup reg) = map fst (callbacksByGroup reg) \<Longrightarrow>
         map fst (propertiesByGroup reg') = map fst (callbacksByGroup reg')"
  using assms
  by (auto simp: register_group_def Let_def Map_get_Map_set distinct_Map_set
           split: sum.splits intro: map_fst_Map_set)

lemma register_groups_get_other:
  "register_groups reg cfg = Inr reg' \<Longrightarrow>
   list_all (\<lambda>(zs, d). groupId zs \<noteq> k) cfg \<Longrightarrow>
   Map_get (callbacksByGroup reg') k = Map_get (callbacksByGroup reg) k \<and>
   Map_get (propertiesByGroup reg') k = Map_get (propertiesByGroup reg) k"
proof (induction cfg arbitrary: reg)
  case Nil
  then show ?case by simp
next
  case (Cons x cfg)
  obtain props d where x: "x = (props, d)" by (cases x)
  from Cons.prems x obtain r where r: "register_group reg (props, d) = Inr r"
    and rest: "register_groups r cfg = Inr reg'"
    by (auto split: sum.splits)
  from Cons.prems x have ne: "groupId props \<noteq> k" and all: "list_all (\<lambda>(zs, d). groupId zs \<noteq> k) cfg"
    by auto
  from Cons.IH[OF rest all] register_group_get(1,2)[OF r, of k] ne
  show ?case by simp
qed

lemma register_groups_invariant:
  "register_groups reg cfg = Inr reg' \<Longrightarrow>
   distinct (map fst (callbacksByGroup reg)) \<Longrightarrow>
   distinct (map fst (propertiesByGroup reg)) \<Longrightarrow>
   map fst (propertiesByGroup reg) = map fst (callbacksByGroup reg) \<Longrightarrow>
   distinct (map fst (callbacksByGroup reg')) \<and>
   distinct (map fst (propertiesByGroup reg')) \<and>
   map fst (propertiesByGroup reg') = map fst (callbacksByGroup reg')"
proof (induction cfg arbitrary: reg)
  case Nil
  then show ?case by simp
next
  case (Cons x cfg)
  obtain props d where x: "x = (props, d)" by (cases x)
  from Cons.prems(1) x obtain r where r: "register_group reg (props, d) = Inr r"
    and rest: "register_groups r cfg = Inr reg'"
    by (auto split: sum.splits)
  show ?case
    using Cons.IH[OF rest] register_group_get(3,4,5)[OF r] Cons.prems(2,3,4) by blast
qed

lemma register_groups_last:
  assumes "register_groups reg (pre @ (ys, d) # post) = Inr reg'"
    and "list_all (\<lambda>(zs, d'). groupId zs \<noteq> groupId ys) post"
  shows "\<exists>cfg. destructure d = Inr cfg \<and>
           Map_get (callbacksByGroup reg') (groupId ys) =
             Some \<lparr>callback = callback cfg, validator = or_null (validator cfg)\<rparr> \<and>
           Map_get (propertiesByGroup reg') (groupId ys) = Some (Set_of (sort ys))"
proof -
  from assms(1) obtain r1 where r1: "register_groups reg pre = Inr r1"
    and r2: "register_groups r1 ((ys, d) # post) = Inr reg'"
    by (auto simp: register_groups_append split: sum.splits)
  from r2 obtain r where r: "register_group r1 (ys, d) = Inr r"
    and rest: "register_groups r post = Inr reg'"
    by (auto split: sum.splits)
  from r obtain cfg where cfg: "destructure d = Inr cfg"
    by (auto simp: register_group_def split: sum.splits)
  from register_groups_get_other[OF rest assms(2)] register_group_get(1,2)[OF r, of "groupId ys"] cfg
  show ?thesis by simp
qed

lemma object_shape_fold:
  "distinct (map fst obj) \<Longrightarrow> set ys \<subseteq> set obj \<Longrightarrow>
   fold (\<lambda>key accumulator.
           case obj_get obj key of
             None \<Rightarrow> accumulator
           | Some config \<Rightarrow> accumulator @ [([key], sanitize config)])
        (map fst ys) acc =
   acc @ map (\<lambda>(key, config). ([key], sanitize config)) ys"
proof (induction ys arbitrary: acc)
  case Nil
  then show ?case by simp
next
  case (Cons y ys)
  obtain k d where y: "y = (k, d)" by (cases y)
  with Cons.prems have "Map_get obj k = Some d" by (simp add: Map_get_distinct)
  with Cons y show ?case by simp
qed

lemma object_shape:
  "distinct (map fst obj) \<Longrightarrow>
   getCallbacksConfigFromParameterObject obj =
     getCallbacksConfigFromParameter (map (\<lambda>(key, config). ([key], config)) obj)"
  using object_shape_fold[of obj obj "[]"]
  by (simp add: getCallbacksConfigFromParameterObject_def getCallbacksConfigFromParameter_def
        Object_keys_def case_prod_unfold)

section \<open>The batch\<close>

lemma Map_get_None_iff: "Map_get m k = None \<longleftrightarrow> k \<notin> fst ` set m"
  by (simp add: Map_get_def map_of_eq_None_iff)

lemma getChangesSummary_fold:
  "set ys \<subseteq> set raw \<Longrightarrow>
   Map_get
     (fold (\<lambda>property accumulator.
              case obj_get raw property of
                None \<Rightarrow> accumulator
              | Some simpleChange \<Rightarrow>
                  obj_set accumulator property (with_didChange simpleChange))
        (map fst ys) acc) k =
   (if k \<in> fst ` set ys then map_option with_didChange (Map_get raw k) else Map_get acc k)"
proof (induction ys arbitrary: acc)
  case Nil
  then show ?case by simp
next
  case (Cons y ys)
  obtain k' c' where y: "y = (k', c')" by (cases y)
  with Cons.prems have "k' \<in> fst ` set raw" by force
  then obtain c where c: "Map_get raw k' = Some c"
    using Map_get_None_iff[of raw k'] by (cases "Map_get raw k'") auto
  from Cons.prems have sub: "set ys \<subseteq> set raw" by simp
  show ?case
    using Cons.IH[OF sub] y c by (auto simp: Map_get_Map_set)
qed

lemma getChangesSummary_get:
  "obj_get (getChangesSummary raw) k = map_option with_didChange (obj_get raw k)"
proof -
  have "obj_get (getChangesSummary raw) k =
          (if k \<in> fst ` set raw then map_option with_didChange (Map_get raw k) else Map_get [] k)"
    unfolding getChangesSummary_def Object_keys_def
    by (rule getChangesSummary_fold) simp
  then show ?thesis
    using Map_get_None_iff[of raw k] by (auto simp: Map_get_def)
qed

lemma didChange_with_didChange: "didChange (with_didChange c) = didPropertyChange (Some c)"
  by (simp add: with_didChange_def simple_change.extend_def tchange.fields_def)

lemma field_changed_summary:
  "field_changed (getChangesSummary raw) p \<longleftrightarrow>
     (case obj_get raw p of None \<Rightarrow> False | Some c \<Rightarrow> didPropertyChange (Some c))"
  by (simp add: field_changed_def getChangesSummary_get didChange_with_didChange split: option.splits)

lemma field_changed_key: "field_changed cs p \<Longrightarrow> p \<in> set (Object_keys cs)"
proof -
  assume "field_changed cs p"
  then have "Map_get cs p \<noteq> None" by (auto simp: field_changed_def split: option.splits)
  then show ?thesis by (simp add: Map_get_None_iff Object_keys_def)
qed

lemma shouldIncludeGroup_iff:
  "shouldIncludeGroup reg cs gid \<longleftrightarrow>
     (\<exists>attrs p. Map_get (propertiesByGroup reg) gid = Some attrs \<and> p \<in> set attrs \<and>
                field_changed cs p)"
proof (cases "Map_get (propertiesByGroup reg) gid")
  case None
  then show ?thesis by (simp add: shouldIncludeGroup_def list_ex_iff)
next
  case (Some attrs)
  have "shouldIncludeGroup reg cs gid \<longleftrightarrow>
          (\<exists>p\<in>set (Object_keys cs). field_changed cs p \<and> p \<in> set attrs)"
    unfolding shouldIncludeGroup_def Some list_ex_iff field_changed_def Let_def
    by (intro bex_cong refl) (simp split: option.splits)
  also have "\<dots> \<longleftrightarrow> (\<exists>p. p \<in> set attrs \<and> field_changed cs p)"
    using field_changed_key by blast
  finally show ?thesis by (simp add: Some)
qed

lemma shouldProcessChanges_iff:
  "list_ex (\<lambda>key. case obj_get (getChangesSummary raw) key of
                    None \<Rightarrow> False
                  | Some simpleChange \<Rightarrow> didChange simpleChange)
      (Object_keys raw) \<longleftrightarrow> (\<exists>p. field_changed (getChangesSummary raw) p)"
proof -
  have keys: "\<And>p. field_changed (getChangesSummary raw) p \<Longrightarrow> p \<in> set (Object_keys raw)"
  proof -
    fix p assume "field_changed (getChangesSummary raw) p"
    then have "Map_get raw p \<noteq> None"
      by (auto simp: field_changed_def getChangesSummary_get split: option.splits)
    then show "p \<in> set (Object_keys raw)" by (simp add: Map_get_None_iff Object_keys_def)
  qed
  have "list_ex (\<lambda>key. case obj_get (getChangesSummary raw) key of
                    None \<Rightarrow> False
                  | Some simpleChange \<Rightarrow> didChange simpleChange)
      (Object_keys raw) \<longleftrightarrow> (\<exists>p\<in>set (Object_keys raw). field_changed (getChangesSummary raw) p)"
    by (simp add: list_ex_iff field_changed_def)
  also have "\<dots> \<longleftrightarrow> (\<exists>p. field_changed (getChangesSummary raw) p)"
    using keys by blast
  finally show ?thesis .
qed

section \<open>The aggregation of handlers and validators\<close>

lemma getCallbacks_agg:
  "getCallbacksWhichShouldBeExecuted reg cs =
     fold (agg_step (shouldIncludeGroup reg cs)) (callbacksByGroup reg) []"
  by (simp add: getCallbacksWhichShouldBeExecuted_def agg_step_def)

lemma agg_distinct:
  "distinct (map fst acc) \<Longrightarrow> distinct (map fst (fold (agg_step T) gs acc))"
  by (induction gs arbitrary: acc) (auto simp: agg_step_def Let_def distinct_Map_set)

lemma set_Set_add: "set (Set_add s x) = insert x (set s)"
  by (auto simp: Set_add_def)

lemma set_fold_Set_add: "set (fold (\<lambda>x s. Set_add s x) xs acc) = set acc \<union> set xs"
  by (induction xs arbitrary: acc) (auto simp: set_Set_add)

lemma set_Set_of: "set (Set_of xs) = set xs"
  by (simp add: Set_of_def set_fold_Set_add)

lemma truthy_or_null: "truthy (or_null v) = truthy v"
  by (cases v) auto

lemma agg_get:
  "(case Map_get (fold (agg_step T) gs acc) cb of
      None \<Rightarrow> Map_get acc cb = None \<and>
              \<not> list_ex (\<lambda>(gid, cfg). T gid \<and> callback cfg = cb) gs
    | Some vs \<Rightarrow>
        (Map_get acc cb \<noteq> None \<or> list_ex (\<lambda>(gid, cfg). T gid \<and> callback cfg = cb) gs) \<and>
        set vs = (case Map_get acc cb of None \<Rightarrow> {} | Some vs0 \<Rightarrow> set vs0) \<union>
                 set (map (\<lambda>(gid, cfg). validator cfg)
                        (filter (\<lambda>(gid, cfg). T gid \<and> callback cfg = cb \<and> truthy (validator cfg)) gs)))"
proof (induction gs arbitrary: acc)
  case Nil
  then show ?case by (auto split: option.splits)
next
  case (Cons g gs)
  obtain gid cfg where g: "g = (gid, cfg)" by (cases g)
  show ?case
  proof (cases "T gid")
    case False
    with g Cons.IH[of acc] show ?thesis
      by (auto simp: agg_step_def split: option.splits)
  next
    case True
    define acc' where "acc' = agg_step T g acc"
    have get': "Map_get acc' k =
        (if k = callback cfg
         then Some (if truthy (validator cfg)
                    then Set_add (case Map_get acc k of None \<Rightarrow> [] | Some s \<Rightarrow> s) (validator cfg)
                    else (case Map_get acc k of None \<Rightarrow> [] | Some s \<Rightarrow> s))
         else Map_get acc k)" for k
      using True g by (simp add: acc'_def agg_step_def Let_def Map_get_Map_set)
    have "fold (agg_step T) (g # gs) acc = fold (agg_step T) gs acc'"
      by (simp add: acc'_def)
    then show ?thesis
      using Cons.IH[of acc'] True g get'[of cb]
      by (auto simp: set_Set_add split: option.splits if_splits)
  qed
qed

lemma getCallbacks_distinct: "distinct (map fst (getCallbacksWhichShouldBeExecuted reg cs))"
  by (simp add: getCallbacks_agg agg_distinct)

lemma getCallbacks_get:
  "(case Map_get (getCallbacksWhichShouldBeExecuted reg cs) cb of
      None \<Rightarrow> \<not> handler_triggered reg cs cb
    | Some vs \<Rightarrow> handler_triggered reg cs cb \<and> set vs = set (collected_validators reg cs cb))"
  using agg_get[where T = "shouldIncludeGroup reg cs" and gs = "callbacksByGroup reg"
                 and acc = "[]" and cb = cb]
  by (auto simp: getCallbacks_agg handler_triggered_def collected_validators_def Map_get_def
           split: option.splits)

section \<open>Running the entries\<close>

lemma handler_calls_of_append:
  "handler_calls_of h (a @ b) = handler_calls_of h a @ handler_calls_of h b"
  by (induction h a rule: handler_calls_of.induct) auto

lemma call_value_cases:
  "call_value env ev v cs =
     (case v of
        Function f \<Rightarrow> ([ev f cs], (case env f cs of Return b \<Rightarrow> Inr b | Throw x \<Rightarrow> Inl (Thrown x)))
      | _ \<Rightarrow> ([], Inl TypeError))"
  by (cases v) auto

lemma call_value_not_function:
  "\<not> is_function v \<Longrightarrow> call_value env ev v cs = ([], Inl TypeError)"
  by (cases v) auto

lemma every_validator_events:
  "e \<in> set (fst (every_validator env vs cs)) \<Longrightarrow> \<exists>f. e = ValidatorCall f cs"
  by (induction vs)
     (auto simp: call_value_cases split: fnval.splits outcome.splits bool.splits prod.splits sum.splits if_splits)

lemma every_validator_no_handler:
  "handler_calls_of h (fst (every_validator env vs cs)) = []"
  by (induction vs)
     (auto simp: call_value_cases handler_calls_of_append
           split: fnval.splits outcome.splits bool.splits prod.splits sum.splits if_splits)

lemma every_validator_True:
  "snd (every_validator env vs cs) = Inr True \<Longrightarrow> list_all (passes env cs) vs"
  by (induction vs)
     (auto simp: call_value_cases split: fnval.splits outcome.splits bool.splits prod.splits sum.splits if_splits)

lemma every_validator_False:
  "snd (every_validator env vs cs) = Inr False \<Longrightarrow> \<not> list_all (passes env cs) vs"
  by (induction vs)
     (auto simp: call_value_cases split: fnval.splits outcome.splits bool.splits prod.splits sum.splits if_splits)

lemma every_validator_total:
  "never_throws env cs \<Longrightarrow> list_all is_function vs \<Longrightarrow>
   snd (every_validator env vs cs) = Inr (list_all (passes env cs) vs)"
proof (induction vs)
  case Nil
  then show ?case by simp
next
  case (Cons v vs)
  then obtain f where v: "v = Function f" by (cases v) auto
  from Cons.prems(1) obtain b where b: "env f cs = Return b"
    by (auto simp: never_throws_def)
  from Cons v b show ?case
    by (cases b) (auto split: prod.splits)
qed

lemma expected_calls_simps:
  "expected_calls env av h cs [] = []"
  "expected_calls env av h cs ((cb, vs) # rest) =
     (if cb = Function h \<and> (av \<or> list_all (passes env cs) vs) then [cs] else [])
       @ expected_calls env av h cs rest"
  by (simp_all add: expected_calls_def)

lemma run_entries_prefix:
  "\<exists>rest. expected_calls env av h cs entries =
     handler_calls_of h (fst (run_entries env av entries cs)) @ rest"
proof (induction entries)
  case Nil
  then show ?case by (simp add: expected_calls_simps)
next
  case (Cons entry entries)
  obtain cb vs where entry: "entry = (cb, vs)" by (cases entry)
  from Cons obtain rest where rest:
    "expected_calls env av h cs entries =
       handler_calls_of h (fst (run_entries env av entries cs)) @ rest" by blast
  obtain trv rv where ev: "(if av then ([], Inr True) else every_validator env vs cs) = (trv, rv)"
    by (cases "if av then ([], Inr True) else every_validator env vs cs") auto
  have trv: "handler_calls_of h trv = []"
    using ev every_validator_no_handler[of h env vs cs] by (auto split: if_splits)
  obtain trr rr where rr: "run_entries env av entries cs = (trr, rr)"
    by (cases "run_entries env av entries cs")
  show ?case
  proof (cases rv)
    case (Inl e)
    with ev entry trv show ?thesis by (simp add: expected_calls_simps)
  next
    case (Inr b)
    show ?thesis
    proof (cases b)
      case False
      with Inr ev have "\<not> av" and "snd (every_validator env vs cs) = Inr False"
        by (auto split: if_splits)
      then have "\<not> (av \<or> list_all (passes env cs) vs)"
        using every_validator_False by blast
      with False Inr ev entry trv rest rr show ?thesis
        by (simp add: expected_calls_simps handler_calls_of_append)
    next
      case True
      with Inr ev have ok: "av \<or> list_all (passes env cs) vs"
        using every_validator_True[of env vs cs] by (auto split: if_splits)
      show ?thesis
      proof (cases cb)
        case (Function f)
        with True Inr ev entry trv rest rr ok show ?thesis
          by (cases "env f cs")
             (auto simp: expected_calls_simps handler_calls_of_append)
      qed (use True Inr ev entry trv in \<open>auto simp: expected_calls_simps handler_calls_of_append\<close>)
    qed
  qed
qed

lemma run_entries_total:
  "never_throws env cs \<Longrightarrow>
   list_all (\<lambda>(cb, vs). is_function cb \<and> list_all is_function vs) entries \<Longrightarrow>
   snd (run_entries env False entries cs) = Inr () \<and>
   handler_calls_of h (fst (run_entries env False entries cs)) =
     expected_calls env False h cs entries"
proof (induction entries)
  case Nil
  then show ?case by (simp add: expected_calls_simps)
next
  case (Cons entry entries)
  obtain cb vs where entry: "entry = (cb, vs)" by (cases entry)
  from Cons.prems entry obtain f where cb: "cb = Function f" by (cases cb) auto
  from Cons.prems entry have vs: "list_all is_function vs" by simp
  from Cons.prems(1) obtain b where b: "env f cs = Return b" by (auto simp: never_throws_def)
  obtain trv rv where ev: "every_validator env vs cs = (trv, rv)"
    by (cases "every_validator env vs cs")
  then have rv: "rv = Inr (list_all (passes env cs) vs)"
    using every_validator_total[OF Cons.prems(1) vs] by simp
  have trv: "handler_calls_of h trv = []"
    using ev every_validator_no_handler[of h env vs cs] by simp
  obtain trr rr where rr: "run_entries env False entries cs = (trr, rr)"
    by (cases "run_entries env False entries cs")
  from Cons.IH Cons.prems rr have IH: "rr = Inr ()"
    "handler_calls_of h trr = expected_calls env False h cs entries" by auto
  show ?case
    using entry cb ev rv trv rr IH b
    by (cases "list_all (passes env cs) vs")
       (auto simp: expected_calls_simps handler_calls_of_append)
qed

lemma run_entries_avoid:
  "never_throws env cs \<Longrightarrow> list_all (\<lambda>(cb, vs). is_function cb) entries \<Longrightarrow>
   snd (run_entries env True entries cs) = Inr () \<and>
   list_all is_handler_call (fst (run_entries env True entries cs)) \<and>
   handler_calls_of h (fst (run_entries env True entries cs)) =
     expected_calls env True h cs entries"
proof (induction entries)
  case Nil
  then show ?case by (simp add: expected_calls_simps)
next
  case (Cons entry entries)
  obtain cb vs where entry: "entry = (cb, vs)" by (cases entry)
  from Cons.prems entry obtain f where cb: "cb = Function f" by (cases cb) auto
  from Cons.prems(1) obtain b where b: "env f cs = Return b" by (auto simp: never_throws_def)
  obtain trr rr where rr: "run_entries env True entries cs = (trr, rr)"
    by (cases "run_entries env True entries cs")
  from Cons.IH Cons.prems rr have IH: "rr = Inr ()" "list_all is_handler_call trr"
    "handler_calls_of h trr = expected_calls env True h cs entries" by auto
  show ?case
    using entry cb rr IH b
    by (auto simp: expected_calls_simps handler_calls_of_append)
qed

lemma run_entries_complete:
  "snd (run_entries env av entries cs) = Inr () \<Longrightarrow>
   handler_calls_of h (fst (run_entries env av entries cs)) = expected_calls env av h cs entries"
proof (induction entries)
  case Nil
  then show ?case by (simp add: expected_calls_simps)
next
  case (Cons entry entries)
  obtain cb vs where entry: "entry = (cb, vs)" by (cases entry)
  obtain trv rv where ev: "(if av then ([], Inr True) else every_validator env vs cs) = (trv, rv)"
    by (cases "if av then ([], Inr True) else every_validator env vs cs") auto
  have trv: "handler_calls_of h trv = []"
    using ev every_validator_no_handler[of h env vs cs] by (auto split: if_splits)
  obtain trr rr where rr: "run_entries env av entries cs = (trr, rr)"
    by (cases "run_entries env av entries cs")
  show ?case
  proof (cases rv)
    case (Inl e)
    with Cons.prems entry ev show ?thesis by simp
  next
    case (Inr b)
    show ?thesis
    proof (cases b)
      case False
      with Inr ev have "\<not> av" and "snd (every_validator env vs cs) = Inr False"
        by (auto split: if_splits)
      then have no: "\<not> (av \<or> list_all (passes env cs) vs)"
        using every_validator_False by blast
      from False Inr Cons.prems entry ev rr have "rr = Inr ()" by simp
      with Cons.IH rr have "handler_calls_of h trr = expected_calls env av h cs entries" by simp
      with no False Inr ev entry trv rr show ?thesis
        by (simp add: expected_calls_simps handler_calls_of_append)
    next
      case True
      with Inr ev have ok: "av \<or> list_all (passes env cs) vs"
        using every_validator_True[of env vs cs] by (auto split: if_splits)
      show ?thesis
      proof (cases cb)
        case (Function f)
        show ?thesis
        proof (cases "env f cs")
          case (Throw x)
          with True Inr Cons.prems entry ev Function show ?thesis by simp
        next
          case (Return b')
          with True Inr Cons.prems entry ev Function rr have "rr = Inr ()" by simp
          with Cons.IH rr have "handler_calls_of h trr = expected_calls env av h cs entries"
            by simp
          with True Inr ev entry trv rr ok Function Return show ?thesis
            by (auto simp: expected_calls_simps handler_calls_of_append)
        qed
      qed (use True Inr Cons.prems entry ev in auto)
    qed
  qed
qed

lemma expected_calls_distinct:
  "distinct (map fst entries) \<Longrightarrow>
   expected_calls env av h cs entries =
     (case Map_get entries (Function h) of
        None \<Rightarrow> []
      | Some vs \<Rightarrow> if av \<or> list_all (passes env cs) vs then [cs] else [])"
proof (induction entries)
  case Nil
  then show ?case by (simp add: expected_calls_simps Map_get_def)
next
  case (Cons entry entries)
  obtain cb vs where entry: "entry = (cb, vs)" by (cases entry)
  show ?case
  proof (cases "cb = Function h")
    case True
    with Cons.prems entry have "Function h \<notin> fst ` set entries" by auto
    then have "Map_get entries (Function h) = None" by (simp add: Map_get_None_iff)
    with Cons entry True show ?thesis
      by (simp add: expected_calls_simps Map_get_def)
  next
    case False
    with Cons entry show ?thesis by (simp add: expected_calls_simps Map_get_def)
  qed
qed

lemma every_validator_throw:
  "ValidatorCall f cs \<in> set (fst (every_validator env vs cs)) \<Longrightarrow> env f cs = Throw x \<Longrightarrow>
   snd (every_validator env vs cs) = Inl (Thrown x) \<and>
   (\<exists>pre. fst (every_validator env vs cs) = pre @ [ValidatorCall f cs] \<and>
          ValidatorCall f cs \<notin> set pre)"
proof (induction vs)
  case Nil
  then show ?case by simp
next
  case (Cons v vs)
  show ?case
  proof (cases v)
    case (Function g)
    show ?thesis
    proof (cases "g = f")
      case True
      with Function Cons.prems(2) show ?thesis by simp
    next
      case False
      obtain trr rr where rr: "every_validator env vs cs = (trr, rr)"
        by (cases "every_validator env vs cs")
      from Cons.prems(1) Function False have ret: "env g cs = Return True"
        by (cases "env g cs") (auto split: bool.splits)
      with Cons.prems(1) Function False rr have "ValidatorCall f cs \<in> set trr" by auto
      with Cons.IH Cons.prems(2) rr obtain pre where
        "rr = Inl (Thrown x)" "trr = pre @ [ValidatorCall f cs]" "ValidatorCall f cs \<notin> set pre"
        by auto
      with Function False ret rr show ?thesis
        by (auto intro!: exI[of _ "ValidatorCall g cs # pre"])
    qed
  qed (use Cons.prems in auto)
qed

lemma run_entries_events:
  "e \<in> set (fst (run_entries env av entries cs)) \<Longrightarrow>
   (\<exists>f. e = ValidatorCall f cs \<or> e = HandlerCall f cs)"
proof (induction entries)
  case Nil
  then show ?case by simp
next
  case (Cons entry entries)
  obtain cb vs where entry: "entry = (cb, vs)" by (cases entry)
  obtain trv rv where ev: "(if av then ([], Inr True) else every_validator env vs cs) = (trv, rv)"
    by (cases "if av then ([], Inr True) else every_validator env vs cs") auto
  have V1: "\<And>e. e \<in> set trv \<Longrightarrow> \<exists>f. e = ValidatorCall f cs"
    using ev every_validator_events[of _ env vs cs] by (auto split: if_splits)
  obtain trr rr where rr: "run_entries env av entries cs = (trr, rr)"
    by (cases "run_entries env av entries cs")
  from Cons.prems entry ev rr have "e \<in> set trv \<or> e \<in> set trr \<or> (\<exists>g. e = HandlerCall g cs)"
    by (auto simp: call_value_cases split: sum.splits bool.splits fnval.splits outcome.splits)
  with V1 Cons.IH rr show ?case by auto
qed

lemma run_entries_throw:
  "e \<in> set (fst (run_entries env av entries cs)) \<Longrightarrow>
   e = ValidatorCall f cs \<or> e = HandlerCall f cs \<Longrightarrow> env f cs = Throw x \<Longrightarrow>
   snd (run_entries env av entries cs) = Inl (Thrown x) \<and>
   (\<exists>pre. fst (run_entries env av entries cs) = pre @ [e] \<and> e \<notin> set pre)"
proof (induction entries)
  case Nil
  then show ?case by simp
next
  case (Cons entry entries)
  obtain cb vs where entry: "entry = (cb, vs)" by (cases entry)
  obtain trv rv where ev: "(if av then ([], Inr True) else every_validator env vs cs) = (trv, rv)"
    by (cases "if av then ([], Inr True) else every_validator env vs cs") auto
  have V1: "\<And>e. e \<in> set trv \<Longrightarrow> \<exists>f. e = ValidatorCall f cs"
    using ev every_validator_events[of _ env vs cs] by (auto split: if_splits)
  have V2: "e \<in> set trv \<Longrightarrow> rv = Inl (Thrown x) \<and> (\<exists>pre. trv = pre @ [e] \<and> e \<notin> set pre)"
  proof -
    assume in_trv: "e \<in> set trv"
    with V1 Cons.prems(2) have e: "e = ValidatorCall f cs" by auto
    from in_trv ev have "\<not> av" by (auto split: if_splits)
    with ev in_trv e every_validator_throw[of f cs env vs x] Cons.prems(3)
    show ?thesis by auto
  qed
  obtain trr rr where rr: "run_entries env av entries cs = (trr, rr)"
    by (cases "run_entries env av entries cs")
  have IH: "e \<in> set trr \<Longrightarrow> rr = Inl (Thrown x) \<and> (\<exists>pre. trr = pre @ [e] \<and> e \<notin> set pre)"
    using Cons.IH Cons.prems(2,3) rr by auto
  show ?case
  proof (cases rv)
    case (Inl err)
    with Cons.prems(1) entry ev have "e \<in> set trv" by auto
    with V2 Inl entry ev show ?thesis by auto
  next
    case (Inr b)
    then have notin: "e \<notin> set trv" using V2 by auto
    show ?thesis
    proof (cases b)
      case False
      with Inr Cons.prems(1) entry ev rr notin have "e \<in> set trr" by auto
      with IH obtain pre where "rr = Inl (Thrown x)" "trr = pre @ [e]" "e \<notin> set pre" by auto
      with False Inr entry ev rr notin show ?thesis
        by (auto intro!: exI[of _ "trv @ pre"])
    next
      case True
      show ?thesis
      proof (cases cb)
        case (Function g)
        show ?thesis
        proof (cases "env g cs")
          case (Throw y)
          with True Inr Cons.prems(1) entry ev Function notin have e: "e = HandlerCall g cs"
            by auto
          with Cons.prems(2,3) Throw have "g = f" "y = x" by auto
          with True Inr entry ev Function Throw e notin show ?thesis by auto
        next
          case (Return b')
          with Cons.prems(2,3) have ne: "e \<noteq> HandlerCall g cs" by auto
          with True Inr Cons.prems(1) entry ev Function Return rr notin have "e \<in> set trr"
            by auto
          with IH obtain pre where "rr = Inl (Thrown x)" "trr = pre @ [e]" "e \<notin> set pre" by auto
          with True Inr entry ev Function Return rr notin ne show ?thesis
            by (auto intro!: exI[of _ "trv @ HandlerCall g cs # pre"])
        qed
      qed (use True Inr Cons.prems(1) entry ev notin in auto)
    qed
  qed
qed

lemma optional_call_events:
  "e \<in> set (fst (optional_call env v cs)) \<Longrightarrow> \<exists>f. e = OnChangesCall f cs"
  by (cases v) (auto split: outcome.splits)

lemma optional_call_no_handler: "handler_calls_of h (fst (optional_call env v cs)) = []"
  by (cases v) (auto split: outcome.splits)

lemma manageChanges_inner_unfold:
  "manageChanges_inner env m raw =
     (let cs = getChangesSummary raw in
      if strict m \<and> \<not> (\<exists>p. field_changed cs p) then ([], Inr cs)
      else
        (case run_entries env False (getCallbacksWhichShouldBeExecuted (callbacks m) cs) cs of
           (tr, Inl e) \<Rightarrow> (tr, Inl e)
         | (tr, Inr u) \<Rightarrow>
             (case optional_call env (onChanges m) cs of
                (tr', Inl e) \<Rightarrow> (tr @ DetectChanges # tr', Inl e)
              | (tr', Inr u') \<Rightarrow> (tr @ DetectChanges # tr', Inr cs))))"
  unfolding manageChanges_inner_def executeChangesCallbacks_def Let_def shouldProcessChanges_iff
  by (auto split: prod.splits sum.splits)

lemma no_change_no_entries:
  "\<not> (\<exists>p. field_changed cs p) \<Longrightarrow> getCallbacksWhichShouldBeExecuted reg cs = []"
proof -
  assume a: "\<not> (\<exists>p. field_changed cs p)"
  then have no: "\<And>gid. \<not> shouldIncludeGroup reg cs gid"
    by (simp add: shouldIncludeGroup_iff)
  have "fold (\<lambda>(gid, cfg) accumulator. accumulator) gs acc = acc"
    for gs :: "(string \<times> callback_config) list" and acc :: "(fnval \<times> fnval list) list"
    by (induction gs) auto
  with no show ?thesis by (simp add: getCallbacksWhichShouldBeExecuted_def)
qed

text \<open>The handler calls of a cycle, for any environment: a prefix of the expected ones.\<close>

lemma inner_handler_calls_prefix:
  "\<exists>rest. expected_calls env False h (getChangesSummary raw)
            (getCallbacksWhichShouldBeExecuted (callbacks m) (getChangesSummary raw)) =
          handler_calls_of h (fst (manageChanges_inner env m raw)) @ rest"
proof -
  let ?cs = "getChangesSummary raw"
  let ?entries = "getCallbacksWhichShouldBeExecuted (callbacks m) ?cs"
  obtain rest where rest: "expected_calls env False h ?cs ?entries =
      handler_calls_of h (fst (run_entries env False ?entries ?cs)) @ rest"
    using run_entries_prefix by blast
  show ?thesis
  proof (cases "strict m \<and> \<not> (\<exists>p. field_changed ?cs p)")
    case True
    then show ?thesis by (simp add: manageChanges_inner_unfold)
  next
    case False
    then have "handler_calls_of h (fst (manageChanges_inner env m raw)) =
                 handler_calls_of h (fst (run_entries env False ?entries ?cs))"
      using optional_call_no_handler[of h env "onChanges m" ?cs]
      by (auto simp: manageChanges_inner_unfold Let_def handler_calls_of_append
               split: prod.splits sum.splits)
    with rest show ?thesis by auto
  qed
qed

lemma expected_calls_dispatch:
  "expected_calls env False h cs (getCallbacksWhichShouldBeExecuted reg cs) =
     (if handler_triggered reg cs (Function h) \<and>
         list_all (passes env cs) (collected_validators reg cs (Function h))
      then [cs] else [])"
  using getCallbacks_get[of reg cs "Function h"]
  by (auto simp: expected_calls_distinct[OF getCallbacks_distinct] list_all_iff
           split: option.splits)

lemma entries_well_typed:
  assumes "registry_well_typed reg"
  shows "list_all (\<lambda>(cb, vs). is_function cb \<and> list_all is_function vs)
           (getCallbacksWhichShouldBeExecuted reg cs)"
proof -
  have "is_function cb \<and> list_all is_function vs"
    if mem: "(cb, vs) \<in> set (getCallbacksWhichShouldBeExecuted reg cs)" for cb vs
  proof -
    from mem have get: "Map_get (getCallbacksWhichShouldBeExecuted reg cs) cb = Some vs"
      by (simp add: Map_get_distinct getCallbacks_distinct)
    with getCallbacks_get[of reg cs cb] have trig: "handler_triggered reg cs cb"
      and vs: "set vs = set (collected_validators reg cs cb)" by auto
    from trig assms have "is_function cb"
      by (auto simp: handler_triggered_def registry_well_typed_def list_ex_iff list_all_iff)
    moreover have "is_function v" if "v \<in> set vs" for v
    proof -
      from that vs obtain gid cfg where "(gid, cfg) \<in> set (callbacksByGroup reg)"
        "v = validator cfg" "truthy (validator cfg)"
        by (auto simp: collected_validators_def)
      with assms show ?thesis
        by (auto simp: registry_well_typed_def list_all_iff)
    qed
    ultimately show ?thesis by (simp add: list_all_iff)
  qed
  then show ?thesis by (auto simp: list_all_iff)
qed

lemma inner_handler_calls_total:
  assumes "registry_well_typed (callbacks m)" and "never_throws env (getChangesSummary raw)"
  shows "handler_calls_of h (fst (manageChanges_inner env m raw)) =
           (if handler_triggered (callbacks m) (getChangesSummary raw) (Function h) \<and>
               list_all (passes env (getChangesSummary raw))
                 (collected_validators (callbacks m) (getChangesSummary raw) (Function h))
            then [getChangesSummary raw] else [])"
proof -
  let ?cs = "getChangesSummary raw"
  let ?entries = "getCallbacksWhichShouldBeExecuted (callbacks m) ?cs"
  have run: "snd (run_entries env False ?entries ?cs) = Inr ()"
    "handler_calls_of h (fst (run_entries env False ?entries ?cs)) =
       expected_calls env False h ?cs ?entries"
    using run_entries_total[OF assms(2) entries_well_typed[OF assms(1)]] by auto
  show ?thesis
  proof (cases "strict m \<and> \<not> (\<exists>p. field_changed ?cs p)")
    case True
    then have "?entries = []" using no_change_no_entries by blast
    then have "expected_calls env False h ?cs ?entries = []" by (simp add: expected_calls_simps)
    with True show ?thesis
      by (simp add: manageChanges_inner_unfold flip: expected_calls_dispatch)
  next
    case False
    then have "handler_calls_of h (fst (manageChanges_inner env m raw)) =
                 handler_calls_of h (fst (run_entries env False ?entries ?cs))"
      using optional_call_no_handler[of h env "onChanges m" ?cs]
      by (auto simp: manageChanges_inner_unfold Let_def handler_calls_of_append
               split: prod.splits sum.splits)
    with run show ?thesis by (simp add: expected_calls_dispatch)
  qed
qed

lemma inner_handler_calls_complete:
  assumes "snd (executeChangesCallbacks env m (getChangesSummary raw)) = Inr ()"
    and "\<exists>p. field_changed (getChangesSummary raw) p"
  shows "handler_calls_of h (fst (manageChanges_inner env m raw)) =
           (if handler_triggered (callbacks m) (getChangesSummary raw) (Function h) \<and>
               list_all (passes env (getChangesSummary raw))
                 (collected_validators (callbacks m) (getChangesSummary raw) (Function h))
            then [getChangesSummary raw] else [])"
proof -
  let ?cs = "getChangesSummary raw"
  let ?entries = "getCallbacksWhichShouldBeExecuted (callbacks m) ?cs"
  from assms(1) have fin: "snd (run_entries env False ?entries ?cs) = Inr ()"
    by (auto simp: executeChangesCallbacks_def Let_def split: prod.splits sum.splits)
  from assms(2) have "handler_calls_of h (fst (manageChanges_inner env m raw)) =
                 handler_calls_of h (fst (run_entries env False ?entries ?cs))"
    using optional_call_no_handler[of h env "onChanges m" ?cs]
    by (auto simp: manageChanges_inner_unfold Let_def handler_calls_of_append
             split: prod.splits sum.splits)
  with run_entries_complete[OF fin, of h] show ?thesis
    by (simp add: expected_calls_dispatch)
qed

section \<open>Properties of the dispatcher\<close>

subsection \<open>The normalizer\<close>

text \<open>
  C2. The derived \<open>didChange\<close> flag is false whenever the record is absent or is a
  first change, whatever the values are; otherwise it is true exactly when the current
  and the previous value are not the same under \<^verbatim>\<open>Object.is\<close>. The comparison is by
  identity, not by structure: two distinct objects with the same properties count as
  changed.
\<close>

theorem didPropertyChange_spec:
  "didPropertyChange None = False \<and>
   (firstChange c \<longrightarrow> didPropertyChange (Some c) = False) \<and>
   (\<not> firstChange c \<longrightarrow>
      didPropertyChange (Some c) = (\<not> Object_is (currentValue c) (previousValue c))) \<and>
   (r \<noteq> s \<longrightarrow>
      didPropertyChange
        (Some \<lparr>previousValue = JObject r ps, currentValue = JObject s ps,
               firstChange = False\<rparr>) = True)"
  by (simp add: didPropertyChange_def)

theorem didPropertyChange_spec_witness:
  "didPropertyChange None = False \<and>
   didPropertyChange
     (Some \<lparr>previousValue = JNumber 1, currentValue = JNumber 2, firstChange = True\<rparr>) = False \<and>
   didPropertyChange
     (Some \<lparr>previousValue = JString ''x'', currentValue = JString ''x'',
            firstChange = False\<rparr>) = False \<and>
   didPropertyChange
     (Some \<lparr>previousValue = JObject 1 [(''k'', JNull)],
            currentValue = JObject 2 [(''k'', JNull)], firstChange = False\<rparr>) = True"
  using
    didPropertyChange_spec
      [of "\<lparr>previousValue = JNumber 1, currentValue = JNumber 2, firstChange = True\<rparr>" 1 2 "[]"]
    didPropertyChange_spec
      [of "\<lparr>previousValue = JString ''x'', currentValue = JString ''x'', firstChange = False\<rparr>"
          1 2 "[(''k'', JNull)]"]
  by simp

subsection \<open>Dispatch of one cycle\<close>

text \<open>
  C1, as the code has it. Take a registered group whose handler is the function \<open>h\<close>,
  and a cycle in which a field of the group is present in the batch with
  \<open>didChange = true\<close> and whose dispatch of the handlers
  (\<^verbatim>\<open>executeChangesCallbacks\<close>) ends without an exception: no validator or handler
  that is called throws, and nothing that is called is a non-function. Then \<open>h\<close> is
  invoked exactly once when every validator collected for it from the triggered groups
  returns true, and is not invoked otherwise; this holds however many of the watched
  fields changed and through however many triggered groups \<open>h\<close> is reachable. The
  argument of the call is the full batch, which has an entry for every reported field.
\<close>

theorem handler_once_when_validators_pass:
  assumes "(gid, cfg) \<in> set (callbacksByGroup (callbacks m))"
    and "callback cfg = Function h"
    and "Map_get (propertiesByGroup (callbacks m)) gid = Some attrs"
    and "p \<in> set attrs"
    and "field_changed (getChangesSummary raw) p"
    and "snd (executeChangesCallbacks env m (getChangesSummary raw)) = Inr ()"
  shows "handler_calls_of h (fst (manageChanges_inner env m raw)) =
           (if list_all (passes env (getChangesSummary raw))
                 (collected_validators (callbacks m) (getChangesSummary raw) (Function h))
            then [getChangesSummary raw] else []) \<and>
         (\<forall>k. (obj_get (getChangesSummary raw) k = None) = (obj_get raw k = None))"
proof -
  from assms(3,4,5) have "shouldIncludeGroup (callbacks m) (getChangesSummary raw) gid"
    by (auto simp: shouldIncludeGroup_iff)
  with assms(1,2) have "handler_triggered (callbacks m) (getChangesSummary raw) (Function h)"
    by (auto simp: handler_triggered_def list_ex_iff)
  moreover from assms(5) have "\<exists>p. field_changed (getChangesSummary raw) p" by blast
  ultimately show ?thesis
    using inner_handler_calls_complete[OF assms(6), of h]
    by (simp add: getChangesSummary_get)
qed

theorem handler_once_witness:
  "handler_calls_of 1
     (fst (manageChanges_inner all_pass
        \<lparr>component = [], strict = True, onChanges = Undefined, debounced = True,
         callbacks =
           \<lparr>propertiesByGroup = [(''a|b'', [''a'', ''b'']), (''a'', [''a''])],
            callbacksByGroup =
              [(''a|b'', \<lparr>callback = Function 1, validator = Null\<rparr>),
               (''a'', \<lparr>callback = Function 1, validator = Function 3\<rparr>)]\<rparr>\<rparr>
        [(''a'', change_from (JString []) (JString ''x'')),
         (''b'', change_from (JString []) (JString ''y'')),
         (''c'', change_from JNull JNull)])) =
   [getChangesSummary
      [(''a'', change_from (JString []) (JString ''x'')),
       (''b'', change_from (JString []) (JString ''y'')),
       (''c'', change_from JNull JNull)]] \<and>
   Object_keys
     (getChangesSummary
        [(''a'', change_from (JString []) (JString ''x'')),
         (''b'', change_from (JString []) (JString ''y'')),
         (''c'', change_from JNull JNull)]) = [''a'', ''b'', ''c'']"
proof -
  let ?m = "\<lparr>component = [], strict = True, onChanges = Undefined, debounced = True,
         callbacks =
           \<lparr>propertiesByGroup = [(''a|b'', [''a'', ''b'']), (''a'', [''a''])],
            callbacksByGroup =
              [(''a|b'', \<lparr>callback = Function 1, validator = Null\<rparr>),
               (''a'', \<lparr>callback = Function 1, validator = Function 3\<rparr>)]\<rparr>\<rparr>"
  let ?raw = "[(''a'', change_from (JString []) (JString ''x'')),
         (''b'', change_from (JString []) (JString ''y'')),
         (''c'', change_from JNull JNull)]"
  have h1: "(''a|b'', \<lparr>callback = Function 1, validator = Null\<rparr>)
              \<in> set (callbacksByGroup (callbacks ?m))" by simp
  have h2: "callback \<lparr>callback = Function 1, validator = Null\<rparr> = Function 1" by simp
  have h3: "Map_get (propertiesByGroup (callbacks ?m)) ''a|b'' = Some [''a'', ''b'']"
    by (simp add: Map_get_def)
  have h4: "''b'' \<in> set [''a'', ''b'']" by simp
  have h5: "field_changed (getChangesSummary ?raw) ''b''" by (simp add: model_defs)
  have h6: "snd (executeChangesCallbacks all_pass ?m (getChangesSummary ?raw)) = Inr ()"
    by (simp add: model_defs)
  have h8: "list_all (passes all_pass (getChangesSummary ?raw))
              (collected_validators (callbacks ?m) (getChangesSummary ?raw) (Function 1))"
    by (simp add: model_defs)
  have keys: "Object_keys (getChangesSummary ?raw) = [''a'', ''b'', ''c'']"
    by (simp add: model_defs)
  note once = handler_once_when_validators_pass[OF h1 h2 h3 h4 h5 h6, THEN conjunct1]
  have calls: "handler_calls_of 1 (fst (manageChanges_inner all_pass ?m ?raw)) =
                 [getChangesSummary ?raw]"
    unfolding once using h8 by (simp only: if_True)
  from calls keys show ?thesis by (rule conjI)
qed

text \<open>
  C1 as stated fails: a handler registered with a validator that returns false is not
  invoked although its field changed; and a handler with no validator is not invoked
  although its field changed when the handler before it throws.
\<close>

theorem handler_once_counterexample:
  "constructor (default_options (CallbacksObject [(''a'', DeclObject (Function 1) (Function 5))])) =
     Inr \<lparr>component = [], strict = True, onChanges = Undefined, debounced = True,
          callbacks =
            \<lparr>propertiesByGroup = [(''a'', [''a''])],
             callbacksByGroup = [(''a'', \<lparr>callback = Function 1, validator = Function 5\<rparr>)]\<rparr>\<rparr> \<and>
   field_changed (getChangesSummary [(''a'', change_from (JString []) (JString ''x''))]) ''a'' \<and>
   manageChanges_inner reject_5
     \<lparr>component = [], strict = True, onChanges = Undefined, debounced = True,
      callbacks =
        \<lparr>propertiesByGroup = [(''a'', [''a''])],
         callbacksByGroup = [(''a'', \<lparr>callback = Function 1, validator = Function 5\<rparr>)]\<rparr>\<rparr>
     [(''a'', change_from (JString []) (JString ''x''))] =
   ([ValidatorCall 5 (getChangesSummary [(''a'', change_from (JString []) (JString ''x''))]),
     DetectChanges],
    Inr (getChangesSummary [(''a'', change_from (JString []) (JString ''x''))])) \<and>
   constructor
     (default_options (CallbacksObject [(''a'', DeclFunction 9), (''b'', DeclFunction 2)])) =
     Inr \<lparr>component = [], strict = True, onChanges = Undefined, debounced = True,
          callbacks =
            \<lparr>propertiesByGroup = [(''a'', [''a'']), (''b'', [''b''])],
             callbacksByGroup =
               [(''a'', \<lparr>callback = Function 9, validator = Null\<rparr>),
                (''b'', \<lparr>callback = Function 2, validator = Null\<rparr>)]\<rparr>\<rparr> \<and>
   field_changed
     (getChangesSummary
        [(''a'', change_from JNull (JBool True)), (''b'', change_from JNull (JBool False))])
     ''b'' \<and>
   manageChanges_inner throw_9
     \<lparr>component = [], strict = True, onChanges = Undefined, debounced = True,
      callbacks =
        \<lparr>propertiesByGroup = [(''a'', [''a'']), (''b'', [''b''])],
         callbacksByGroup =
           [(''a'', \<lparr>callback = Function 9, validator = Null\<rparr>),
            (''b'', \<lparr>callback = Function 2, validator = Null\<rparr>)]\<rparr>\<rparr>
     [(''a'', change_from JNull (JBool True)), (''b'', change_from JNull (JBool False))] =
   ([HandlerCall 9
       (getChangesSummary
          [(''a'', change_from JNull (JBool True)), (''b'', change_from JNull (JBool False))])],
    Inl (Thrown 1))"
  by (simp add: throw_9_def model_defs)

text \<open>
  C3. A handler fires at most once in a cycle. If it fires, it was invoked with the full
  batch, and the validator of every triggered group through which it is reachable
  returned true on that batch. A validator that returns false suppresses its own handler
  only: when no call throws, whether a handler fires is decided by its own collected
  validators alone; and in any case the loop over the handlers, after a validator of one
  handler has returned false, goes on with the remaining handlers.
\<close>

theorem overlapping_groups_validators:
  "length (handler_calls_of h (fst (manageChanges_inner env m raw))) \<le> 1 \<and>
   (handler_calls_of h (fst (manageChanges_inner env m raw)) \<noteq> [] \<longrightarrow>
      handler_calls_of h (fst (manageChanges_inner env m raw)) = [getChangesSummary raw] \<and>
      (\<forall>gid cfg. (gid, cfg) \<in> set (callbacksByGroup (callbacks m)) \<and>
          shouldIncludeGroup (callbacks m) (getChangesSummary raw) gid \<and>
          callback cfg = Function h \<and> truthy (validator cfg) \<longrightarrow>
          passes env (getChangesSummary raw) (validator cfg))) \<and>
   (registry_well_typed (callbacks m) \<and> never_throws env (getChangesSummary raw) \<longrightarrow>
      handler_calls_of h (fst (manageChanges_inner env m raw)) =
        (if handler_triggered (callbacks m) (getChangesSummary raw) (Function h) \<and>
            list_all (passes env (getChangesSummary raw))
              (collected_validators (callbacks m) (getChangesSummary raw) (Function h))
         then [getChangesSummary raw] else [])) \<and>
   (snd (every_validator env vs (getChangesSummary raw)) = Inr False \<longrightarrow>
      run_entries env False ((cb, vs) # rest) (getChangesSummary raw) =
        (fst (every_validator env vs (getChangesSummary raw)) @
           fst (run_entries env False rest (getChangesSummary raw)),
         snd (run_entries env False rest (getChangesSummary raw))))"
proof -
  let ?cs = "getChangesSummary raw"
  let ?calls = "handler_calls_of h (fst (manageChanges_inner env m raw))"
  have skip: "run_entries env False ((cb, vs) # rest) ?cs =
        (fst (every_validator env vs ?cs) @ fst (run_entries env False rest ?cs),
         snd (run_entries env False rest ?cs))"
    if "snd (every_validator env vs ?cs) = Inr False"
    using that by (cases "every_validator env vs ?cs") (auto split: prod.splits)
  obtain rest where rest:
    "(if handler_triggered (callbacks m) ?cs (Function h) \<and>
         list_all (passes env ?cs) (collected_validators (callbacks m) ?cs (Function h))
      then [?cs] else []) = ?calls @ rest"
    using inner_handler_calls_prefix[of env h raw m] by (auto simp: expected_calls_dispatch)
  then have len: "length ?calls \<le> 1"
    by (cases ?calls) (auto split: if_splits)
  have fired: "?calls = [?cs] \<and>
      list_all (passes env ?cs) (collected_validators (callbacks m) ?cs (Function h))"
    if "?calls \<noteq> []"
    using that rest by (cases ?calls) (auto split: if_splits)
  have each: "passes env ?cs (validator cfg)"
    if "?calls \<noteq> []" "(gid, cfg) \<in> set (callbacksByGroup (callbacks m))"
      "shouldIncludeGroup (callbacks m) ?cs gid" "callback cfg = Function h"
      "truthy (validator cfg)" for gid cfg
  proof -
    from that(2-5) have "validator cfg \<in> set (collected_validators (callbacks m) ?cs (Function h))"
      by (force simp: collected_validators_def)
    with fired[OF that(1)] show ?thesis by (simp add: list_all_iff)
  qed
  from len fired each skip inner_handler_calls_total[of m env raw h]
  show ?thesis by blast
qed


theorem overlapping_groups_witness:
  "registry_well_typed
     \<lparr>propertiesByGroup = [(''a|b'', [''a'', ''b'']), (''a'', [''a'']), (''b'', [''b''])],
      callbacksByGroup =
        [(''a|b'', \<lparr>callback = Function 1, validator = Function 3\<rparr>),
         (''a'', \<lparr>callback = Function 1, validator = Function 5\<rparr>),
         (''b'', \<lparr>callback = Function 2, validator = Function 4\<rparr>)]\<rparr> \<and>
   never_throws reject_5
     (getChangesSummary [(''a'', change_from JNull (JBool True)),
                         (''b'', change_from JNull (JBool False))]) \<and>
   handler_calls_of 1
     (fst (manageChanges_inner reject_5
        \<lparr>component = [], strict = True, onChanges = Undefined, debounced = True,
         callbacks =
           \<lparr>propertiesByGroup = [(''a|b'', [''a'', ''b'']), (''a'', [''a'']), (''b'', [''b''])],
            callbacksByGroup =
              [(''a|b'', \<lparr>callback = Function 1, validator = Function 3\<rparr>),
               (''a'', \<lparr>callback = Function 1, validator = Function 5\<rparr>),
               (''b'', \<lparr>callback = Function 2, validator = Function 4\<rparr>)]\<rparr>\<rparr>
        [(''a'', change_from JNull (JBool True)), (''b'', change_from JNull (JBool False))])) = [] \<and>
   handler_calls_of 2
     (fst (manageChanges_inner reject_5
        \<lparr>component = [], strict = True, onChanges = Undefined, debounced = True,
         callbacks =
           \<lparr>propertiesByGroup = [(''a|b'', [''a'', ''b'']), (''a'', [''a'']), (''b'', [''b''])],
            callbacksByGroup =
              [(''a|b'', \<lparr>callback = Function 1, validator = Function 3\<rparr>),
               (''a'', \<lparr>callback = Function 1, validator = Function 5\<rparr>),
               (''b'', \<lparr>callback = Function 2, validator = Function 4\<rparr>)]\<rparr>\<rparr>
        [(''a'', change_from JNull (JBool True)), (''b'', change_from JNull (JBool False))])) =
   [getChangesSummary [(''a'', change_from JNull (JBool True)),
                       (''b'', change_from JNull (JBool False))]] \<and>
   run_entries reject_5 False [(Function 1, [Function 5])]
     (getChangesSummary [(''a'', change_from JNull (JBool True)),
                         (''b'', change_from JNull (JBool False))]) =
   ([ValidatorCall 5
       (getChangesSummary [(''a'', change_from JNull (JBool True)),
                           (''b'', change_from JNull (JBool False))])],
    Inr ())"
proof -
  let ?reg = "\<lparr>propertiesByGroup = [(''a|b'', [''a'', ''b'']), (''a'', [''a'']), (''b'', [''b''])],
      callbacksByGroup =
        [(''a|b'', \<lparr>callback = Function 1, validator = Function 3\<rparr>),
         (''a'', \<lparr>callback = Function 1, validator = Function 5\<rparr>),
         (''b'', \<lparr>callback = Function 2, validator = Function 4\<rparr>)]\<rparr>"
  let ?m = "\<lparr>component = [], strict = True, onChanges = Undefined, debounced = True,
            callbacks = ?reg\<rparr>"
  let ?raw = "[(''a'', change_from JNull (JBool True)), (''b'', change_from JNull (JBool False))]"
  have wt: "registry_well_typed (callbacks ?m)" by (simp add: registry_well_typed_def)
  have nt: "never_throws reject_5 (getChangesSummary ?raw)"
    by (auto simp: never_throws_def reject_5_def)
  have t1: "\<not> list_all (passes reject_5 (getChangesSummary ?raw))
               (collected_validators (callbacks ?m) (getChangesSummary ?raw) (Function 1))"
    by (simp add: model_defs)
  have t2: "handler_triggered (callbacks ?m) (getChangesSummary ?raw) (Function 2) \<and>
            list_all (passes reject_5 (getChangesSummary ?raw))
               (collected_validators (callbacks ?m) (getChangesSummary ?raw) (Function 2))"
    by (simp add: model_defs)
  note fires1 = overlapping_groups_validators[where h = 1 and env = reject_5 and m = ?m and raw = ?raw,
      THEN conjunct2, THEN conjunct2, THEN conjunct1, THEN mp, OF conjI[OF wt nt]]
  note fires2 = overlapping_groups_validators[where h = 2 and env = reject_5 and m = ?m and raw = ?raw,
      THEN conjunct2, THEN conjunct2, THEN conjunct1, THEN mp, OF conjI[OF wt nt]]
  have rejected: "snd (every_validator reject_5 [Function 5] (getChangesSummary ?raw)) = Inr False"
    by (simp add: reject_5_def)
  have goes_on: "run_entries reject_5 False [(Function 1, [Function 5])] (getChangesSummary ?raw) =
      ([ValidatorCall 5 (getChangesSummary ?raw)], Inr ())"
    using overlapping_groups_validators[where env = reject_5 and raw = ?raw
        and vs = "[Function 5]" and cb = "Function 1" and rest = "[]",
        THEN conjunct2, THEN conjunct2, THEN conjunct2, THEN mp, OF rejected]
    by (simp add: reject_5_def)
  have c1: "handler_calls_of 1 (fst (manageChanges_inner reject_5 ?m ?raw)) = []"
    unfolding fires1 using t1 by (simp only: simp_thms if_False)
  have c2: "handler_calls_of 2 (fst (manageChanges_inner reject_5 ?m ?raw)) =
              [getChangesSummary ?raw]"
    unfolding fires2 using t2 by (simp only: simp_thms if_True)
  have wt': "registry_well_typed ?reg" by (simp add: registry_well_typed_def)
  from wt' nt c1 c2 goes_on show ?thesis by (intro conjI)
qed

text \<open>
  C5. When no field of the batch has \<open>didChange = true\<close>: in strict mode, which is what
  the constructor sets when no \<^verbatim>\<open>strict\<close> option is given, the cycle does nothing (no
  handler, no \<^verbatim>\<open>detectChanges\<close>); otherwise the dispatch completes with no handler
  and \<^verbatim>\<open>detectChanges\<close> is invoked, the first thing the cycle does.
\<close>

theorem nothing_changed:
  assumes "list_all (\<lambda>(property, change). \<not> didChange change) (getChangesSummary raw)"
  shows "(strict m \<longrightarrow> manageChanges_inner env m raw = ([], Inr (getChangesSummary raw))) \<and>
         (\<not> strict m \<longrightarrow>
            executeChangesCallbacks env m (getChangesSummary raw) = ([DetectChanges], Inr ()) \<and>
            fst (manageChanges_inner env m raw) =
              DetectChanges # fst (optional_call env (onChanges m) (getChangesSummary raw)) \<and>
            handler_calls_of h (fst (manageChanges_inner env m raw)) = []) \<and>
         (constructor opts = Inr m' \<and> opt_strict opts = None \<longrightarrow> strict m')"
proof -
  let ?cs = "getChangesSummary raw"
  have none: "\<not> (\<exists>p. field_changed ?cs p)"
  proof
    assume "\<exists>p. field_changed ?cs p"
    then obtain p ch where "Map_get ?cs p = Some ch" "didChange ch"
      by (auto simp: field_changed_def split: option.splits)
    then have "(p, ch) \<in> set ?cs" "didChange ch" by (auto dest: Map_get_Some_mem)
    with assms show False by (auto simp: list_all_iff)
  qed
  then have entries: "getCallbacksWhichShouldBeExecuted (callbacks m) ?cs = []"
    using no_change_no_entries by blast
  have a: "strict m \<Longrightarrow> manageChanges_inner env m raw = ([], Inr ?cs)"
    using none by (simp add: manageChanges_inner_unfold Let_def)
  have b: "executeChangesCallbacks env m ?cs = ([DetectChanges], Inr ())"
    by (simp add: executeChangesCallbacks_def entries)
  have c: "\<not> strict m \<Longrightarrow> fst (manageChanges_inner env m raw) =
              DetectChanges # fst (optional_call env (onChanges m) ?cs)"
    by (auto simp: manageChanges_inner_unfold entries Let_def split: prod.splits sum.splits)
  have d: "\<not> strict m \<Longrightarrow> handler_calls_of h (fst (manageChanges_inner env m raw)) = []"
    using c optional_call_no_handler[of h env "onChanges m" ?cs] by simp
  have e: "constructor opts = Inr m' \<Longrightarrow> opt_strict opts = None \<Longrightarrow> strict m'"
    by (auto simp: constructor_def split: sum.splits)
  from a b c d e show ?thesis by blast
qed

theorem nothing_changed_witness:
  "list_all (\<lambda>(property, change). \<not> didChange change)
     (getChangesSummary [(''a'', change_from (JString ''x'') (JString ''x''))]) \<and>
   constructor (default_options (CallbacksObject [(''a'', DeclFunction 1)])) =
     Inr \<lparr>component = [], strict = True, onChanges = Undefined, debounced = True,
          callbacks =
            \<lparr>propertiesByGroup = [(''a'', [''a''])],
             callbacksByGroup = [(''a'', \<lparr>callback = Function 1, validator = Null\<rparr>)]\<rparr>\<rparr> \<and>
   manageChanges_inner all_pass
     \<lparr>component = [], strict = True, onChanges = Undefined, debounced = True,
      callbacks =
        \<lparr>propertiesByGroup = [(''a'', [''a''])],
         callbacksByGroup = [(''a'', \<lparr>callback = Function 1, validator = Null\<rparr>)]\<rparr>\<rparr>
     [(''a'', change_from (JString ''x'') (JString ''x''))] =
     ([], Inr (getChangesSummary [(''a'', change_from (JString ''x'') (JString ''x''))])) \<and>
   fst (manageChanges_inner all_pass
     \<lparr>component = [], strict = False, onChanges = Undefined, debounced = True,
      callbacks =
        \<lparr>propertiesByGroup = [(''a'', [''a''])],
         callbacksByGroup = [(''a'', \<lparr>callback = Function 1, validator = Null\<rparr>)]\<rparr>\<rparr>
     [(''a'', change_from (JString ''x'') (JString ''x''))]) = [DetectChanges]"
proof -
  let ?raw = "[(''a'', change_from (JString ''x'') (JString ''x''))]"
  let ?reg = "\<lparr>propertiesByGroup = [(''a'', [''a''])],
         callbacksByGroup = [(''a'', \<lparr>callback = Function 1, validator = Null\<rparr>)]\<rparr>"
  have h: "list_all (\<lambda>(property, change). \<not> didChange change) (getChangesSummary ?raw)"
    by (simp add: model_defs)
  have c: "constructor (default_options (CallbacksObject [(''a'', DeclFunction 1)])) =
     Inr \<lparr>component = [], strict = True, onChanges = Undefined, debounced = True,
          callbacks = ?reg\<rparr>"
    by (simp add: model_defs)
  from nothing_changed[OF h, of "\<lparr>component = [], strict = True, onChanges = Undefined,
                                  debounced = True, callbacks = ?reg\<rparr>" all_pass]
       nothing_changed[OF h, of "\<lparr>component = [], strict = False, onChanges = Undefined,
                                  debounced = True, callbacks = ?reg\<rparr>" all_pass]
       h c
  show ?thesis by simp
qed

subsection \<open>Exceptions\<close>

lemma inner_events:
  "e \<in> set (fst (manageChanges_inner env m raw)) \<Longrightarrow>
   e \<in> set (fst (run_entries env False
              (getCallbacksWhichShouldBeExecuted (callbacks m) (getChangesSummary raw))
              (getChangesSummary raw))) \<or>
   e = DetectChanges \<or> (\<exists>f. e = OnChangesCall f (getChangesSummary raw))"
  using optional_call_events[of e env "onChanges m" "getChangesSummary raw"]
  by (auto simp: manageChanges_inner_unfold Let_def split: if_splits prod.splits sum.splits)

lemma inner_throw:
  assumes "e \<in> set (fst (manageChanges_inner env m raw))"
    and "e = ValidatorCall f (getChangesSummary raw) \<or> e = HandlerCall f (getChangesSummary raw)"
    and "env f (getChangesSummary raw) = Throw x"
  shows "snd (manageChanges_inner env m raw) = Inl (Thrown x) \<and>
         (\<exists>pre. fst (manageChanges_inner env m raw) = pre @ [e] \<and> e \<notin> set pre) \<and>
         DetectChanges \<notin> set (fst (manageChanges_inner env m raw))"
proof -
  let ?cs = "getChangesSummary raw"
  let ?run = "run_entries env False (getCallbacksWhichShouldBeExecuted (callbacks m) ?cs) ?cs"
  from inner_events[OF assms(1)] assms(2) have mem: "e \<in> set (fst ?run)" by auto
  from run_entries_throw[OF mem assms(2,3)] obtain pre where
    r: "snd ?run = Inl (Thrown x)" and tr: "fst ?run = pre @ [e]" "e \<notin> set pre" by auto
  have nd: "DetectChanges \<notin> set (fst ?run)"
    using run_entries_events[of DetectChanges env False _ ?cs] by auto
  have proc: "\<not> (strict m \<and> \<not> (\<exists>p. field_changed ?cs p))"
  proof
    assume "strict m \<and> \<not> (\<exists>p. field_changed ?cs p)"
    then have "fst (manageChanges_inner env m raw) = []"
      by (simp add: manageChanges_inner_unfold Let_def)
    with assms(1) show False by simp
  qed
  obtain t where run: "?run = (t, Inl (Thrown x))" using r by (cases ?run) auto
  with proc have "manageChanges_inner env m raw = (t, Inl (Thrown x))"
    by (auto simp: manageChanges_inner_unfold Let_def)
  with run tr nd show ?thesis by auto
qed

text \<open>
  C6, as the code has it. If a validator or a handler throws while a cycle is processed
  (\<^verbatim>\<open>_manageChanges\<close>), the exception ends the cycle at once: the throwing call is the
  last event of the cycle, so no later handler is invoked and \<^verbatim>\<open>detectChanges\<close> is
  not invoked, and the cycle ends with that exception. A manager that is not debounced
  (\<^verbatim>\<open>debounceDelay\<close> NaN) passes the exception to the caller of
  \<^verbatim>\<open>manageChanges\<close>. A debounced manager, which is the default, returns normally to
  that caller; the exception is raised when the timer fires.
\<close>

theorem throw_aborts_cycle:
  assumes "e \<in> set (fst (manageChanges_inner env m raw))"
    and "e = ValidatorCall f (getChangesSummary raw) \<or> e = HandlerCall f (getChangesSummary raw)"
    and "env f (getChangesSummary raw) = Throw x"
  shows "snd (manageChanges_inner env m raw) = Inl (Thrown x) \<and>
         (\<exists>pre. fst (manageChanges_inner env m raw) = pre @ [e] \<and> e \<notin> set pre) \<and>
         DetectChanges \<notin> set (fst (manageChanges_inner env m raw)) \<and>
         (\<not> debounced m \<longrightarrow>
            fst (manageChanges env m raw timer) =
              (fst (manageChanges_inner env m raw), Inl (Thrown x))) \<and>
         (debounced m \<longrightarrow>
            manageChanges env m raw timer = (([], Inr None), Some raw) \<and>
            fst (manageChanges_timer_fires env m (Some raw)) =
              (fst (manageChanges_inner env m raw), Inl (Thrown x)))"
proof -
  from inner_throw[OF assms] obtain pre where
    r: "snd (manageChanges_inner env m raw) = Inl (Thrown x)"
    and tr: "fst (manageChanges_inner env m raw) = pre @ [e]" "e \<notin> set pre"
    and nd: "DetectChanges \<notin> set (fst (manageChanges_inner env m raw))" by auto
  obtain t where inner: "manageChanges_inner env m raw = (t, Inl (Thrown x))"
    using r by (cases "manageChanges_inner env m raw") auto
  have a: "\<not> debounced m \<Longrightarrow> fst (manageChanges env m raw timer) = (t, Inl (Thrown x))"
    by (simp add: manageChanges_def inner)
  have b: "debounced m \<Longrightarrow> manageChanges env m raw timer = (([], Inr None), Some raw)"
    by (simp add: manageChanges_def debounce_call_def)
  have c: "fst (manageChanges_timer_fires env m (Some raw)) = (t, Inl (Thrown x))"
    by (simp add: manageChanges_timer_fires_def inner)
  from r tr nd a b c inner show ?thesis by auto
qed

theorem throw_aborts_cycle_witness:
  "manageChanges_inner throw_9
     \<lparr>component = [], strict = True, onChanges = Undefined, debounced = False,
      callbacks =
        \<lparr>propertiesByGroup = [(''a'', [''a'']), (''b'', [''b''])],
         callbacksByGroup =
           [(''a'', \<lparr>callback = Function 9, validator = Null\<rparr>),
            (''b'', \<lparr>callback = Function 2, validator = Null\<rparr>)]\<rparr>\<rparr>
     [(''a'', change_from JNull (JBool True)), (''b'', change_from JNull (JBool False))] =
   ([HandlerCall 9
       (getChangesSummary
          [(''a'', change_from JNull (JBool True)), (''b'', change_from JNull (JBool False))])],
    Inl (Thrown 1)) \<and>
   fst (manageChanges throw_9
     \<lparr>component = [], strict = True, onChanges = Undefined, debounced = False,
      callbacks =
        \<lparr>propertiesByGroup = [(''a'', [''a'']), (''b'', [''b''])],
         callbacksByGroup =
           [(''a'', \<lparr>callback = Function 9, validator = Null\<rparr>),
            (''b'', \<lparr>callback = Function 2, validator = Null\<rparr>)]\<rparr>\<rparr>
     [(''a'', change_from JNull (JBool True)), (''b'', change_from JNull (JBool False))] None) =
   ([HandlerCall 9
       (getChangesSummary
          [(''a'', change_from JNull (JBool True)), (''b'', change_from JNull (JBool False))])],
    Inl (Thrown 1))"
proof -
  let ?m = "\<lparr>component = [], strict = True, onChanges = Undefined, debounced = False,
      callbacks =
        \<lparr>propertiesByGroup = [(''a'', [''a'']), (''b'', [''b''])],
         callbacksByGroup =
           [(''a'', \<lparr>callback = Function 9, validator = Null\<rparr>),
            (''b'', \<lparr>callback = Function 2, validator = Null\<rparr>)]\<rparr>\<rparr>"
  let ?raw = "[(''a'', change_from JNull (JBool True)), (''b'', change_from JNull (JBool False))]"
  have inner: "manageChanges_inner throw_9 ?m ?raw =
      ([HandlerCall 9 (getChangesSummary ?raw)], Inl (Thrown 1))"
    by (simp add: throw_9_def model_defs)
  have h1: "HandlerCall 9 (getChangesSummary ?raw)
              \<in> set (fst (manageChanges_inner throw_9 ?m ?raw))"
    by (simp add: inner)
  have h2: "HandlerCall 9 (getChangesSummary ?raw) = ValidatorCall 9 (getChangesSummary ?raw) \<or>
            HandlerCall 9 (getChangesSummary ?raw) = HandlerCall 9 (getChangesSummary ?raw)"
    by simp
  have h3: "throw_9 9 (getChangesSummary ?raw) = Throw 1"
    by (simp add: throw_9_def)
  from throw_aborts_cycle[OF h1 h2 h3, of None] inner
  show ?thesis by simp
qed

text \<open>
  C6 as stated fails under the default configuration: the handler throws, and the call
  of \<^verbatim>\<open>manageChanges\<close> returns normally, with the cycle left pending in the timer.
\<close>

theorem throw_aborts_cycle_counterexample:
  "constructor (default_options (CallbacksObject [(''a'', DeclFunction 9)])) =
     Inr \<lparr>component = [], strict = True, onChanges = Undefined, debounced = True,
          callbacks =
            \<lparr>propertiesByGroup = [(''a'', [''a''])],
             callbacksByGroup = [(''a'', \<lparr>callback = Function 9, validator = Null\<rparr>)]\<rparr>\<rparr> \<and>
   throw_9 9 (getChangesSummary [(''a'', change_from JNull (JBool True))]) = Throw 1 \<and>
   manageChanges throw_9
     \<lparr>component = [], strict = True, onChanges = Undefined, debounced = True,
      callbacks =
        \<lparr>propertiesByGroup = [(''a'', [''a''])],
         callbacksByGroup = [(''a'', \<lparr>callback = Function 9, validator = Null\<rparr>)]\<rparr>\<rparr>
     [(''a'', change_from JNull (JBool True))] None =
   (([], Inr None), Some [(''a'', change_from JNull (JBool True))]) \<and>
   manageChanges_timer_fires throw_9
     \<lparr>component = [], strict = True, onChanges = Undefined, debounced = True,
      callbacks =
        \<lparr>propertiesByGroup = [(''a'', [''a''])],
         callbacksByGroup = [(''a'', \<lparr>callback = Function 9, validator = Null\<rparr>)]\<rparr>\<rparr>
     (Some [(''a'', change_from JNull (JBool True))]) =
   (([HandlerCall 9 (getChangesSummary [(''a'', change_from JNull (JBool True))])],
     Inl (Thrown 1)), None)"
  by (simp add: throw_9_def model_defs)

subsection \<open>The value returned by manageChanges\<close>

text \<open>
  C8. The claim is that \<^verbatim>\<open>manageChanges\<close> returns the cycle's batch, also under the
  default configuration. The code does not: constructed with no \<^verbatim>\<open>debounceDelay\<close>,
  the manager's \<^verbatim>\<open>manageChanges\<close> is the debounced function, which for every input
  only starts the timer and returns \<^verbatim>\<open>undefined\<close>, while \<^verbatim>\<open>_manageChanges\<close>
  on the same input returns the batch.
\<close>

theorem manageChanges_default_returns_undefined:
  "constructor (default_options NoCallbacks) = Inr default_manager \<and>
   manageChanges env default_manager raw timer = (([], Inr None), Some raw) \<and>
   snd (manageChanges_inner env default_manager raw) = Inr (getChangesSummary raw)"
  by (auto simp: constructor_def default_options_def default_manager_def manageChanges_def
        debounce_call_def manageChanges_inner_unfold Let_def empty_registry_def
        getCallbacksWhichShouldBeExecuted_def
        split: prod.splits sum.splits)

subsection \<open>Group keys\<close>

text \<open>
  C10. The group key is not injective on field sets: the one-field group
  \<^verbatim>\<open>["a|b"]\<close> and the two-field group \<^verbatim>\<open>["a","b"]\<close> have the same key, so the
  later of the two registrations replaces the earlier in both maps, and splitting the
  key at the separator gives the fields \<^verbatim>\<open>a\<close> and \<^verbatim>\<open>b\<close> for the group
  \<^verbatim>\<open>["a|b"]\<close>.
\<close>

theorem groupId_not_injective:
  "groupId [''a|b''] = groupId [''a'', ''b''] \<and>
   set [''a|b''] \<noteq> set [''a'', ''b''] \<and>
   setCallbacksConfig
     (CallbacksArray [([''a'', ''b''], DeclFunction 1), ([''a|b''], DeclFunction 2)]) =
     Inr \<lparr>propertiesByGroup = [(''a|b'', [''a|b''])],
          callbacksByGroup = [(''a|b'', \<lparr>callback = Function 2, validator = Null\<rparr>)]\<rparr> \<and>
   String_split (CHR ''|'') (groupId [''a|b'']) = [''a'', ''b'']"
  by (simp add: model_defs)

text \<open>
  C4, as the code has it. Two field lists with the same members with the same
  multiplicities (permutations of each other) have the same group key. A mapping
  declaration registers what the list declaration of its fields as one-field groups
  registers. Of the registrations that share a key, the last one is the one found in
  both maps of the registry, whose keys are distinct.
\<close>

theorem same_members_same_group:
  "(mset xs = mset ys \<longrightarrow> groupId xs = groupId ys) \<and>
   (distinct (map fst obj) \<longrightarrow>
      setCallbacksConfig (CallbacksObject obj) =
        setCallbacksConfig (CallbacksArray (map (\<lambda>(key, config). ([key], config)) obj))) \<and>
   (setCallbacksConfig (CallbacksArray (pre @ (zs, d) # post)) = Inr reg \<and>
    list_all (\<lambda>(ws, d'). groupId ws \<noteq> groupId zs) post \<longrightarrow>
      (\<exists>cfg. destructure (sanitize d) = Inr cfg \<and>
         Map_get (callbacksByGroup reg) (groupId zs) =
           Some \<lparr>callback = callback cfg, validator = or_null (validator cfg)\<rparr>) \<and>
      Map_get (propertiesByGroup reg) (groupId zs) = Some (Set_of (sort zs)) \<and>
      distinct (map fst (callbacksByGroup reg)) \<and>
      distinct (map fst (propertiesByGroup reg)))"
proof -
  have a: "mset xs = mset ys \<Longrightarrow> groupId xs = groupId ys" by (rule groupId_mset)
  have b: "distinct (map fst obj) \<Longrightarrow>
      setCallbacksConfig (CallbacksObject obj) =
        setCallbacksConfig (CallbacksArray (map (\<lambda>(key, config). ([key], config)) obj))"
    by (simp add: object_shape)
  have c: "(\<exists>cfg. destructure (sanitize d) = Inr cfg \<and>
         Map_get (callbacksByGroup reg) (groupId zs) =
           Some \<lparr>callback = callback cfg, validator = or_null (validator cfg)\<rparr>) \<and>
      Map_get (propertiesByGroup reg) (groupId zs) = Some (Set_of (sort zs)) \<and>
      distinct (map fst (callbacksByGroup reg)) \<and>
      distinct (map fst (propertiesByGroup reg))"
    if build: "setCallbacksConfig (CallbacksArray (pre @ (zs, d) # post)) = Inr reg"
      and later: "list_all (\<lambda>(ws, d'). groupId ws \<noteq> groupId zs) post"
  proof -
    let ?san = "\<lambda>(keys, callbackConfig). (keys, sanitize callbackConfig)"
    from build have reg: "register_groups empty_registry
        (map ?san pre @ (zs, sanitize d) # map ?san post) = Inr reg"
      by (simp add: computeCallbackConfigDerivatives_def getCallbacksConfigFromParameter_def)
    from later have later': "list_all (\<lambda>(ws, d'). groupId ws \<noteq> groupId zs) (map ?san post)"
      by (auto simp: list_all_iff)
    from register_groups_last[OF reg later'] have last:
      "\<exists>cfg. destructure (sanitize d) = Inr cfg \<and>
         Map_get (callbacksByGroup reg) (groupId zs) =
           Some \<lparr>callback = callback cfg, validator = or_null (validator cfg)\<rparr> \<and>
         Map_get (propertiesByGroup reg) (groupId zs) = Some (Set_of (sort zs))" .
    from register_groups_invariant[OF reg] have
      "distinct (map fst (callbacksByGroup reg)) \<and> distinct (map fst (propertiesByGroup reg))"
      by (simp add: empty_registry_def)
    with last show ?thesis by blast
  qed
  from a b c show ?thesis by blast
qed

theorem same_members_witness:
  "mset [''b'', ''a''] = mset [''a'', ''b''] \<and>
   groupId [''b'', ''a''] = groupId [''a'', ''b''] \<and>
   distinct (map fst [(''a'', DeclFunction 1)]) \<and>
   setCallbacksConfig (CallbacksObject [(''a'', DeclFunction 1)]) =
     setCallbacksConfig (CallbacksArray [([''a''], DeclFunction 1)]) \<and>
   setCallbacksConfig
     (CallbacksArray [([''a'', ''b''], DeclFunction 1), ([''b'', ''a''], DeclFunction 2)]) =
     Inr \<lparr>propertiesByGroup = [(''a|b'', [''a'', ''b''])],
          callbacksByGroup = [(''a|b'', \<lparr>callback = Function 2, validator = Null\<rparr>)]\<rparr> \<and>
   Map_get
     (propertiesByGroup
        \<lparr>propertiesByGroup = [(''a|b'', [''a'', ''b''])],
         callbacksByGroup = [(''a|b'', \<lparr>callback = Function 2, validator = Null\<rparr>)]\<rparr>)
     (groupId [''b'', ''a'']) = Some (Set_of (sort [''b'', ''a'']))"
proof -
  let ?R = "\<lparr>propertiesByGroup = [(''a|b'', [''a'', ''b''])],
          callbacksByGroup = [(''a|b'', \<lparr>callback = Function 2, validator = Null\<rparr>)]\<rparr>"
  note T = same_members_same_group[where xs = "[''b'', ''a'']" and ys = "[''a'', ''b'']"
      and obj = "[(''a'', DeclFunction 1)]" and pre = "[([''a'', ''b''], DeclFunction 1)]"
      and zs = "[''b'', ''a'']" and d = "DeclFunction 2" and post = "[]" and reg = ?R]
  have m: "mset [''b'', ''a''] = mset [''a'', ''b'']" by simp
  have d: "distinct (map fst [(''a'', DeclFunction 1)])" by simp
  have build: "setCallbacksConfig
      (CallbacksArray ([([''a'', ''b''], DeclFunction 1)] @ ([''b'', ''a''], DeclFunction 2) # [])) =
      Inr ?R"
    by (simp add: model_defs)
  have later: "list_all (\<lambda>(ws, d'). groupId ws \<noteq> groupId [''b'', ''a'']) []" by simp
  note g = T[THEN conjunct1, THEN mp, OF m]
  have o: "setCallbacksConfig (CallbacksObject [(''a'', DeclFunction 1)]) =
     setCallbacksConfig (CallbacksArray [([''a''], DeclFunction 1)])"
    using T[THEN conjunct2, THEN conjunct1, THEN mp, OF d] by simp
  note l = T[THEN conjunct2, THEN conjunct2, THEN mp, OF conjI[OF build later],
             THEN conjunct2, THEN conjunct1]
  have build': "setCallbacksConfig
     (CallbacksArray [([''a'', ''b''], DeclFunction 1), ([''b'', ''a''], DeclFunction 2)]) = Inr ?R"
    using build by simp
  from m g d o build' l show ?thesis by (intro conjI)
qed

text \<open>
  C4 as stated fails for duplicates: \<^verbatim>\<open>["a","a"]\<close> and \<^verbatim>\<open>["a"]\<close> have the same
  members and different keys, and both registrations stay in the registry.
\<close>

theorem same_members_counterexample:
  "set [''a'', ''a''] = set [''a''] \<and> groupId [''a'', ''a''] \<noteq> groupId [''a''] \<and>
   setCallbacksConfig
     (CallbacksArray [([''a'', ''a''], DeclFunction 1), ([''a''], DeclFunction 2)]) =
     Inr \<lparr>propertiesByGroup = [(''a|a'', [''a'']), (''a'', [''a''])],
          callbacksByGroup =
            [(''a|a'', \<lparr>callback = Function 1, validator = Null\<rparr>),
             (''a'', \<lparr>callback = Function 2, validator = Null\<rparr>)]\<rparr>"
  by (simp add: model_defs)

subsection \<open>Malformed declarations\<close>

text \<open>
  C9, as the code has it. Building the registry, from a list or from a mapping, raises an
  error, a TypeError, exactly when some declaration is \<^verbatim>\<open>null\<close> or
  \<^verbatim>\<open>undefined\<close>. Every other declaration is accepted, malformed or not: a
  declaration whose callback is not a function and that has no validator is registered,
  and in a manager that holds this one registration the TypeError is raised when a cycle
  triggers its group.
\<close>

theorem malformed_declarations:
  "((\<exists>reg. setCallbacksConfig (CallbacksArray cfg) = Inr reg) \<longleftrightarrow>
      list_all (\<lambda>(props, d). d \<noteq> DeclNull \<and> d \<noteq> DeclUndefined) cfg) \<and>
   (setCallbacksConfig (CallbacksArray cfg) = Inl e \<longrightarrow> e = TypeError) \<and>
   (distinct (map fst obj) \<longrightarrow>
      ((\<exists>reg. setCallbacksConfig (CallbacksObject obj) = Inr reg) \<longleftrightarrow>
         list_all (\<lambda>(key, d). d \<noteq> DeclNull \<and> d \<noteq> DeclUndefined) obj)) \<and>
   (setCallbacksConfig (CallbacksArray [(props, d)]) = Inr (callbacks m) \<and>
    destructure (sanitize d) = Inr dc \<and> \<not> is_function (callback dc) \<and>
    \<not> truthy (validator dc) \<and> p \<in> set props \<and> field_changed (getChangesSummary raw) p \<longrightarrow>
      \<not> well_formed_decl d \<and> manageChanges_inner env m raw = ([], Inl TypeError))"
proof -
  let ?san = "\<lambda>(keys, callbackConfig). (keys, sanitize callbackConfig)"
  have a: "(\<exists>reg. setCallbacksConfig (CallbacksArray cfg) = Inr reg) \<longleftrightarrow>
      list_all (\<lambda>(props, d). d \<noteq> DeclNull \<and> d \<noteq> DeclUndefined) cfg"
    for cfg :: "(string list \<times> decl) list"
  proof -
    have "sanitize d \<noteq> DeclNull \<and> sanitize d \<noteq> DeclUndefined \<longleftrightarrow>
          d \<noteq> DeclNull \<and> d \<noteq> DeclUndefined" for d
      by (cases d) auto
    then have "list_all (\<lambda>(props, d). d \<noteq> DeclNull \<and> d \<noteq> DeclUndefined) (map ?san cfg) =
               list_all (\<lambda>(props, d). d \<noteq> DeclNull \<and> d \<noteq> DeclUndefined) cfg"
      by (induction cfg) auto
    then show ?thesis
      using register_groups_Inr[of empty_registry "map ?san cfg"]
      by (simp add: computeCallbackConfigDerivatives_def getCallbacksConfigFromParameter_def)
  qed
  have o: "(\<exists>reg. setCallbacksConfig (CallbacksObject obj) = Inr reg) \<longleftrightarrow>
         list_all (\<lambda>(key, d). d \<noteq> DeclNull \<and> d \<noteq> DeclUndefined) obj"
    if "distinct (map fst obj)"
  proof -
    have "setCallbacksConfig (CallbacksObject obj) =
          setCallbacksConfig (CallbacksArray (map (\<lambda>(key, config). ([key], config)) obj))"
      using that by (simp add: object_shape)
    moreover have "list_all (\<lambda>(props, d). d \<noteq> DeclNull \<and> d \<noteq> DeclUndefined)
                     (map (\<lambda>(key, config). ([key], config)) obj) =
                   list_all (\<lambda>(key, d). d \<noteq> DeclNull \<and> d \<noteq> DeclUndefined) obj"
      by (induction obj) auto
    ultimately show ?thesis
      using a[of "map (\<lambda>(key, config). ([key], config)) obj"] by simp
  qed
  have b: "setCallbacksConfig (CallbacksArray cfg) = Inl e \<Longrightarrow> e = TypeError"
    using register_groups_error[of empty_registry "map ?san cfg" e]
    by (simp add: computeCallbackConfigDerivatives_def getCallbacksConfigFromParameter_def)
  have c: "\<not> well_formed_decl d \<and> manageChanges_inner env m raw = ([], Inl TypeError)"
    if build: "setCallbacksConfig (CallbacksArray [(props, d)]) = Inr (callbacks m)"
      and dc: "destructure (sanitize d) = Inr dc"
      and nf: "\<not> is_function (callback dc)" and nv: "\<not> truthy (validator dc)"
      and p: "p \<in> set props" and ch: "field_changed (getChangesSummary raw) p"
  proof -
    let ?cs = "getChangesSummary raw"
    from build dc have reg: "callbacks m =
        \<lparr>propertiesByGroup = [(groupId props, Set_of (sort props))],
         callbacksByGroup =
           [(groupId props, \<lparr>callback = callback dc, validator = or_null (validator dc)\<rparr>)]\<rparr>"
      by (simp add: computeCallbackConfigDerivatives_def getCallbacksConfigFromParameter_def
            register_group_def empty_registry_def Let_def)
    have trig: "shouldIncludeGroup (callbacks m) ?cs (groupId props)"
      using p ch by (auto simp: shouldIncludeGroup_iff reg Map_get_def set_Set_of)
    have entries: "getCallbacksWhichShouldBeExecuted (callbacks m) ?cs = [(callback dc, [])]"
      using trig nv
      by (simp add: getCallbacksWhichShouldBeExecuted_def reg[symmetric])
         (simp add: reg Map_get_def truthy_or_null)
    have inner: "manageChanges_inner env m raw = ([], Inl TypeError)"
      using ch nf
      by (auto simp: manageChanges_inner_unfold Let_def entries call_value_not_function)
    have "\<not> well_formed_decl d"
      using dc nf by (cases d rule: well_formed_decl.cases) auto
    with inner show ?thesis by simp
  qed
  from a[of cfg] b o c show ?thesis by blast
qed

theorem malformed_declarations_witness:
  "setCallbacksConfig (CallbacksArray [([''a''], DeclObject Undefined Undefined)]) =
     Inr \<lparr>propertiesByGroup = [(''a'', [''a''])],
          callbacksByGroup = [(''a'', \<lparr>callback = Undefined, validator = Null\<rparr>)]\<rparr> \<and>
   list_all (\<lambda>(props, d). d \<noteq> DeclNull \<and> d \<noteq> DeclUndefined)
     [([''a''], DeclObject Undefined Undefined)] \<and>
   setCallbacksConfig (CallbacksArray [([''a''], DeclNull)]) = Inl TypeError \<and>
   field_changed (getChangesSummary [(''a'', change_from JNull (JBool True))]) ''a'' \<and>
   manageChanges_inner all_pass
     \<lparr>component = [], strict = True, onChanges = Undefined, debounced = False,
      callbacks =
        \<lparr>propertiesByGroup = [(''a'', [''a''])],
         callbacksByGroup = [(''a'', \<lparr>callback = Undefined, validator = Null\<rparr>)]\<rparr>\<rparr>
     [(''a'', change_from JNull (JBool True))] = ([], Inl TypeError) \<and>
   (\<exists>reg. setCallbacksConfig (CallbacksObject [(''a'', DeclObject Undefined Undefined)]) =
            Inr reg)"
proof -
  let ?reg = "\<lparr>propertiesByGroup = [(''a'', [''a''])],
         callbacksByGroup = [(''a'', \<lparr>callback = Undefined, validator = Null\<rparr>)]\<rparr>"
  let ?m = "\<lparr>component = [], strict = True, onChanges = Undefined, debounced = False,
            callbacks = ?reg\<rparr>"
  let ?raw = "[(''a'', change_from JNull (JBool True))]"
  let ?dc = "\<lparr>callback = Undefined, validator = Undefined\<rparr>"
  note T = malformed_declarations[where cfg = "[([''a''], DeclObject Undefined Undefined)]"
      and props = "[''a'']" and d = "DeclObject Undefined Undefined" and m = ?m
      and dc = ?dc and p = "''a''" and raw = ?raw and env = all_pass and e = TypeError
      and obj = "[(''a'', DeclObject Undefined Undefined)]"]
  have build: "setCallbacksConfig (CallbacksArray [([''a''], DeclObject Undefined Undefined)]) =
      Inr ?reg"
    by (simp add: model_defs)
  then have build': "setCallbacksConfig (CallbacksArray [([''a''], DeclObject Undefined Undefined)]) =
      Inr (callbacks ?m)" by simp
  have ok: "list_all (\<lambda>(props, d). d \<noteq> DeclNull \<and> d \<noteq> DeclUndefined)
     [([''a''], DeclObject Undefined Undefined)]"
    using T[THEN conjunct1] build by blast
  have null: "setCallbacksConfig (CallbacksArray [([''a''], DeclNull)]) = Inl TypeError"
    by (simp add: model_defs)
  have dc: "destructure (sanitize (DeclObject Undefined Undefined)) = Inr ?dc" by simp
  have nf: "\<not> is_function (callback ?dc)" by simp
  have nv: "\<not> truthy (validator ?dc)" by simp
  have p: "''a'' \<in> set [''a'']" by simp
  have ch: "field_changed (getChangesSummary ?raw) ''a''" by (simp add: model_defs)
  note hyp = conjI[OF build' conjI[OF dc conjI[OF nf conjI[OF nv conjI[OF p ch]]]]]
  note inner = T[THEN conjunct2, THEN conjunct2, THEN conjunct2, THEN mp, OF hyp,
                 THEN conjunct2]
  have keys: "distinct (map fst [(''a'', DeclObject Undefined Undefined)])" by simp
  have obj: "\<exists>reg. setCallbacksConfig (CallbacksObject [(''a'', DeclObject Undefined Undefined)]) =
                 Inr reg"
    using T[THEN conjunct2, THEN conjunct2, THEN conjunct1, THEN mp, OF keys] by simp
  from build ok null ch inner obj show ?thesis by (intro conjI)
qed

text \<open>
  C9 as stated fails: the declaration \<^verbatim>\<open>{}\<close> and a primitive are accepted when the
  registry is built; the TypeError is raised at dispatch, when the group is triggered.
\<close>

theorem malformed_declarations_counterexample:
  "\<not> well_formed_decl (DeclObject Undefined Undefined) \<and> \<not> well_formed_decl DeclPrimitive \<and>
   constructor
     ((default_options
         (CallbacksArray [([''a''], DeclObject Undefined Undefined), ([''b''], DeclPrimitive)]))
        \<lparr>opt_debounceDelay := DelayNaN\<rparr>) =
     Inr \<lparr>component = [], strict = True, onChanges = Undefined, debounced = False,
          callbacks =
            \<lparr>propertiesByGroup = [(''a'', [''a'']), (''b'', [''b''])],
             callbacksByGroup =
               [(''a'', \<lparr>callback = Undefined, validator = Null\<rparr>),
                (''b'', \<lparr>callback = Undefined, validator = Null\<rparr>)]\<rparr>\<rparr> \<and>
   manageChanges all_pass
     \<lparr>component = [], strict = True, onChanges = Undefined, debounced = False,
      callbacks =
        \<lparr>propertiesByGroup = [(''a'', [''a'']), (''b'', [''b''])],
         callbacksByGroup =
           [(''a'', \<lparr>callback = Undefined, validator = Null\<rparr>),
            (''b'', \<lparr>callback = Undefined, validator = Null\<rparr>)]\<rparr>\<rparr>
     [(''b'', change_from JNull (JBool True))] None =
   (([], Inl TypeError), None)"
  by (simp add: model_defs)

subsection \<open>Running all handlers by hand\<close>

text \<open>
  C7. The claim is that \<^verbatim>\<open>executeCallbacks\<close> runs every registered handler on a
  batch of unchanged fields. The code does not when it is called without
  \<^verbatim>\<open>avoidValidations\<close> and a group was registered without a validator: the reduce
  adds the stored \<^verbatim>\<open>null\<close> to the validations of the handler, \<^verbatim>\<open>every\<close> calls
  it, and a TypeError ends the run before any handler is invoked. The dispatch of a cycle
  adds a validator only when it is truthy, and runs the same handler. With
  \<^verbatim>\<open>avoidValidations\<close> both handlers run, on the batch the claim describes, and
  \<^verbatim>\<open>detectChanges\<close> is not invoked.
\<close>

theorem executeCallbacks_null_validator:
  "constructor
     ((default_options
         (CallbacksObject [(''name'', DeclFunction 1), (''surname'', DeclFunction 2)]))
        \<lparr>opt_component := [(''name'', Data (JString [])), (''surname'', Data (JString []))]\<rparr>) =
     Inr \<lparr>component = [(''name'', Data (JString [])), (''surname'', Data (JString []))],
          strict = True, onChanges = Undefined, debounced = True,
          callbacks =
            \<lparr>propertiesByGroup = [(''name'', [''name'']), (''surname'', [''surname''])],
             callbacksByGroup =
               [(''name'', \<lparr>callback = Function 1, validator = Null\<rparr>),
                (''surname'', \<lparr>callback = Function 2, validator = Null\<rparr>)]\<rparr>\<rparr> \<and>
   executeCallbacks all_pass
     \<lparr>component = [(''name'', Data (JString [])), (''surname'', Data (JString []))],
      strict = True, onChanges = Undefined, debounced = True,
      callbacks =
        \<lparr>propertiesByGroup = [(''name'', [''name'']), (''surname'', [''surname''])],
         callbacksByGroup =
           [(''name'', \<lparr>callback = Function 1, validator = Null\<rparr>),
            (''surname'', \<lparr>callback = Function 2, validator = Null\<rparr>)]\<rparr>\<rparr>
     False = ([], Inl TypeError) \<and>
   executeCallbacks all_pass
     \<lparr>component = [(''name'', Data (JString [])), (''surname'', Data (JString []))],
      strict = True, onChanges = Undefined, debounced = True,
      callbacks =
        \<lparr>propertiesByGroup = [(''name'', [''name'']), (''surname'', [''surname''])],
         callbacksByGroup =
           [(''name'', \<lparr>callback = Function 1, validator = Null\<rparr>),
            (''surname'', \<lparr>callback = Function 2, validator = Null\<rparr>)]\<rparr>\<rparr>
     True =
   ([HandlerCall 1
       [(''name'', \<lparr>previousValue = JString [], currentValue = JString [],
                    firstChange = False, didChange = False\<rparr>),
        (''surname'', \<lparr>previousValue = JString [], currentValue = JString [],
                       firstChange = False, didChange = False\<rparr>)],
     HandlerCall 2
       [(''name'', \<lparr>previousValue = JString [], currentValue = JString [],
                    firstChange = False, didChange = False\<rparr>),
        (''surname'', \<lparr>previousValue = JString [], currentValue = JString [],
                       firstChange = False, didChange = False\<rparr>)]],
    Inr ()) \<and>
   fst (manageChanges_inner all_pass
     \<lparr>component = [(''name'', Data (JString [])), (''surname'', Data (JString []))],
      strict = True, onChanges = Undefined, debounced = True,
      callbacks =
        \<lparr>propertiesByGroup = [(''name'', [''name'']), (''surname'', [''surname''])],
         callbacksByGroup =
           [(''name'', \<lparr>callback = Function 1, validator = Null\<rparr>),
            (''surname'', \<lparr>callback = Function 2, validator = Null\<rparr>)]\<rparr>\<rparr>
     [(''name'', change_from (JString []) (JString ''johnny''))]) =
   [HandlerCall 1 (getChangesSummary [(''name'', change_from (JString []) (JString ''johnny''))]),
    DetectChanges]"
  by (simp add: manual_run_defs model_defs)

end
